theory Spec2Isabelle
  imports Main "HOL-Library.Word"
begin

unbundle bit_operations_syntax

section \<open>Declarations of the pool/spa controller (controller\_03.h, controller\_02.h)\<close>

subsection \<open>Modes and equipment states\<close>

text \<open>
  The four enumerations of \<^verbatim>\<open>controller_03.h\<close> (lines 100-124). The version 2 header
  \<^verbatim>\<open>controller_02.h\<close> (lines 84-108) declares the same enumerators in the same order;
  only the tag of the first enumeration differs (\<^verbatim>\<open>mode_t\<close> there,
  \<^verbatim>\<open>global_mode_t\<close> here).
\<close>

datatype global_mode_t =
    MODE_IDLE
  | MODE_HEAT_SPA
  | MODE_HEAT_POOL
  | MODE_FILL_SPA
  | MODE_EMPTY_SPA
  | MODE_FILTER_POOL
  | MODE_FILTER_SPA

datatype heater_t =
    HEATING_NONE
  | HEATING_SPA
  | HEATING_POOL

datatype vconfig_t =
    VALVES_UNDEFINED
  | VALVES_HEAT_SPA
  | VALVES_HEAT_POOL
  | VALVES_FILL_SPA
  | VALVES_EMPTY_SPA

datatype pump_status_t =
    PUMP_NONE
  | PUMP_SPA
  | PUMP_POOL

text \<open>
  A C enumeration without initialisers numbers its enumerators 0, 1, 2, ... in the order
  of declaration. The functions below give that number.
\<close>

fun global_mode_code :: "global_mode_t \<Rightarrow> nat" where
  "global_mode_code MODE_IDLE = 0"
| "global_mode_code MODE_HEAT_SPA = 1"
| "global_mode_code MODE_HEAT_POOL = 2"
| "global_mode_code MODE_FILL_SPA = 3"
| "global_mode_code MODE_EMPTY_SPA = 4"
| "global_mode_code MODE_FILTER_POOL = 5"
| "global_mode_code MODE_FILTER_SPA = 6"

fun heater_code :: "heater_t \<Rightarrow> nat" where
  "heater_code HEATING_NONE = 0"
| "heater_code HEATING_SPA = 1"
| "heater_code HEATING_POOL = 2"

fun vconfig_code :: "vconfig_t \<Rightarrow> nat" where
  "vconfig_code VALVES_UNDEFINED = 0"
| "vconfig_code VALVES_HEAT_SPA = 1"
| "vconfig_code VALVES_HEAT_POOL = 2"
| "vconfig_code VALVES_FILL_SPA = 3"
| "vconfig_code VALVES_EMPTY_SPA = 4"

fun pump_status_code :: "pump_status_t \<Rightarrow> nat" where
  "pump_status_code PUMP_NONE = 0"
| "pump_status_code PUMP_SPA = 1"
| "pump_status_code PUMP_POOL = 2"

subsection \<open>Timing parameters\<close>

text \<open>
  \<^verbatim>\<open>controller_03.h\<close> lines 139-148 (and, with the same numbers,
  \<^verbatim>\<open>controller_02.h\<close> lines 112-121). The two long delays are chosen by the
  preprocessor test \<^verbatim>\<open>#if DEBUG_TIMES\<close>; the macro is defined outside the headers, so
  it is a parameter here. The preprocessor takes any non-zero value as true and an
  undefined macro as 0. All four delays are in seconds.
\<close>

definition DELAY_HEATER_OFF :: "int \<Rightarrow> nat" where
  "DELAY_HEATER_OFF DEBUG_TIMES = (if DEBUG_TIMES \<noteq> 0 then 5 else 60)"

definition DELAY_VALVE_CHANGE :: "int \<Rightarrow> nat" where
  "DELAY_VALVE_CHANGE DEBUG_TIMES = (if DEBUG_TIMES \<noteq> 0 then 5 else 45)"

definition DELAY_PUMP_OFF :: nat where
  "DELAY_PUMP_OFF = 3"

definition DELAY_PUMP_ON :: nat where
  "DELAY_PUMP_ON = 3"

definition TITLE_LINE_TIME :: nat where
  "TITLE_LINE_TIME = 2"

text \<open>The same block of \<^verbatim>\<open>controller_02.h\<close>.\<close>

definition DELAY_HEATER_OFF_02 :: "int \<Rightarrow> nat" where
  "DELAY_HEATER_OFF_02 DEBUG_TIMES = (if DEBUG_TIMES \<noteq> 0 then 5 else 60)"

definition DELAY_VALVE_CHANGE_02 :: "int \<Rightarrow> nat" where
  "DELAY_VALVE_CHANGE_02 DEBUG_TIMES = (if DEBUG_TIMES \<noteq> 0 then 5 else 45)"

definition DELAY_PUMP_OFF_02 :: nat where
  "DELAY_PUMP_OFF_02 = 3"

definition DELAY_PUMP_ON_02 :: nat where
  "DELAY_PUMP_ON_02 = 3"

text \<open>
  Durations in minutes, \<^verbatim>\<open>controller_03.h\<close> lines 150-161. The macros that are
  products are kept as the products the header writes.
\<close>

definition FILTER_POOL_TIME :: nat where
  "FILTER_POOL_TIME = 20"

definition FILTER_SPA_TIME :: nat where
  "FILTER_SPA_TIME = 10"

definition MODE_SPA_TIMEOUT :: nat where
  "MODE_SPA_TIMEOUT = 3 * 60"

definition MODE_POOL_TIMEOUT :: nat where
  "MODE_POOL_TIMEOUT = 24 * 60"

definition MODE_FILL_TIMEOUT :: nat where
  "MODE_FILL_TIMEOUT = 5"

definition MODE_EMPTY_TIMEOUT :: nat where
  "MODE_EMPTY_TIMEOUT = 5"

definition POOL_LIGHT_TIMEOUT :: nat where
  "POOL_LIGHT_TIMEOUT = 3 * 60"

definition SPA_JETS_TIMEOUT :: nat where
  "SPA_JETS_TIMEOUT = 1 * 60"

text \<open>The same block of \<^verbatim>\<open>controller_02.h\<close>, lines 123-134.\<close>

definition FILTER_POOL_TIME_02 :: nat where
  "FILTER_POOL_TIME_02 = 20"

definition FILTER_SPA_TIME_02 :: nat where
  "FILTER_SPA_TIME_02 = 10"

definition MODE_SPA_TIMEOUT_02 :: nat where
  "MODE_SPA_TIMEOUT_02 = 3 * 60"

definition MODE_POOL_TIMEOUT_02 :: nat where
  "MODE_POOL_TIMEOUT_02 = 24 * 60"

definition MODE_FILL_TIMEOUT_02 :: nat where
  "MODE_FILL_TIMEOUT_02 = 5"

definition MODE_EMPTY_TIMEOUT_02 :: nat where
  "MODE_EMPTY_TIMEOUT_02 = 5"

definition POOL_LIGHT_TIMEOUT_02 :: nat where
  "POOL_LIGHT_TIMEOUT_02 = 3 * 60"

definition SPA_JETS_TIMEOUT_02 :: nat where
  "SPA_JETS_TIMEOUT_02 = 1 * 60"

text \<open>
  \<^verbatim>\<open>DEBOUNCE_DELAY\<close> (line 163 of \<^verbatim>\<open>controller_03.h\<close>, line 136 of
  \<^verbatim>\<open>controller_02.h\<close>) is in milliseconds.
\<close>

definition DEBOUNCE_DELAY :: nat where
  "DEBOUNCE_DELAY = 50"

subsection \<open>Temperature limits\<close>

text \<open>\<^verbatim>\<open>controller_03.h\<close> lines 167-169, in degrees.\<close>

definition TEMP_MIN :: int where
  "TEMP_MIN = 60"

definition TEMP_MAX_POOL :: int where
  "TEMP_MAX_POOL = 92"

definition TEMP_MAX_SPA :: int where
  "TEMP_MAX_SPA = 105"

subsection \<open>Relays\<close>

text \<open>
  Version 3 drives the ten relays through two ADG728 switches; each relay is one bit of
  a 16-bit word (\<^verbatim>\<open>controller_03.h\<close> lines 28-37, written there as binary
  literals: relay 1 is \<^verbatim>\<open>0b0000000100000000\<close> = 256, ..., relay 8 is
  \<^verbatim>\<open>0b1000000000000000\<close> = 32768, relay 9 is 1 and relay 10 is 2).
\<close>

definition POOL_PUMP_RELAY :: "16 word" where
  "POOL_PUMP_RELAY = 256"

definition SPA_PUMP_RELAY :: "16 word" where
  "SPA_PUMP_RELAY = 512"

definition SPA_JETS_PUMP_RELAY :: "16 word" where
  "SPA_JETS_PUMP_RELAY = 1024"

definition HEAT_POOL_RELAY :: "16 word" where
  "HEAT_POOL_RELAY = 2048"

definition HEAT_SPA_RELAY :: "16 word" where
  "HEAT_SPA_RELAY = 4096"

definition POOL_VALVE_RELAY :: "16 word" where
  "POOL_VALVE_RELAY = 8192"

definition SPA_VALVE_RELAY :: "16 word" where
  "SPA_VALVE_RELAY = 16384"

definition HEATER_VALVE_RELAY :: "16 word" where
  "HEATER_VALVE_RELAY = 32768"

definition POOL_LIGHT_RELAY :: "16 word" where
  "POOL_LIGHT_RELAY = 1"

definition SPARE_RELAY :: "16 word" where
  "SPARE_RELAY = 2"

definition relay_masks :: "16 word list" where
  "relay_masks = [POOL_PUMP_RELAY, SPA_PUMP_RELAY, SPA_JETS_PUMP_RELAY, HEAT_POOL_RELAY,
     HEAT_SPA_RELAY, POOL_VALVE_RELAY, SPA_VALVE_RELAY, HEATER_VALVE_RELAY,
     POOL_LIGHT_RELAY, SPARE_RELAY]"

text \<open>
  Version 2 gives each relay an output pin of its own (\<^verbatim>\<open>controller_02.h\<close>
  lines 11-20).
\<close>

definition POOL_PUMP_RELAY_02 :: nat where
  "POOL_PUMP_RELAY_02 = 2"

definition SPA_PUMP_RELAY_02 :: nat where
  "SPA_PUMP_RELAY_02 = 3"

definition SPA_JETS_PUMP_RELAY_02 :: nat where
  "SPA_JETS_PUMP_RELAY_02 = 4"

definition HEAT_POOL_RELAY_02 :: nat where
  "HEAT_POOL_RELAY_02 = 5"

definition HEAT_SPA_RELAY_02 :: nat where
  "HEAT_SPA_RELAY_02 = 6"

definition POOL_VALVE_RELAY_02 :: nat where
  "POOL_VALVE_RELAY_02 = 7"

definition SPA_VALVE_RELAY_02 :: nat where
  "SPA_VALVE_RELAY_02 = 8"

definition HEATER_VALVE_RELAY_02 :: nat where
  "HEATER_VALVE_RELAY_02 = 9"

definition POOL_LIGHT_RELAY_02 :: nat where
  "POOL_LIGHT_RELAY_02 = 10"

definition SPARE_RELAY_02 :: nat where
  "SPARE_RELAY_02 = 11"

definition relay_pins_02 :: "nat list" where
  "relay_pins_02 = [POOL_PUMP_RELAY_02, SPA_PUMP_RELAY_02, SPA_JETS_PUMP_RELAY_02,
     HEAT_POOL_RELAY_02, HEAT_SPA_RELAY_02, POOL_VALVE_RELAY_02, SPA_VALVE_RELAY_02,
     HEATER_VALVE_RELAY_02, POOL_LIGHT_RELAY_02, SPARE_RELAY_02]"

subsection \<open>Push buttons\<close>

text \<open>
  The eight buttons are read through an ADG728 multiplexer, one mask bit each
  (\<^verbatim>\<open>controller_03.h\<close> lines 47-55). The web server pushes a button for the
  controller by setting its entry of \<^verbatim>\<open>button_webpushed[NUM_BUTTONS]\<close> (line 57).
\<close>

definition NUM_BUTTONS :: nat where
  "NUM_BUTTONS = 8"

definition HEAT_SPA_BUTTON_MASK :: "8 word" where
  "HEAT_SPA_BUTTON_MASK = 1"

definition HEAT_POOL_BUTTON_MASK :: "8 word" where
  "HEAT_POOL_BUTTON_MASK = 2"

definition SPA_JETS_BUTTON_MASK :: "8 word" where
  "SPA_JETS_BUTTON_MASK = 4"

definition POOL_LIGHT_BUTTON_MASK :: "8 word" where
  "POOL_LIGHT_BUTTON_MASK = 8"

definition FILTER_SPA_BUTTON_MASK :: "8 word" where
  "FILTER_SPA_BUTTON_MASK = 16"

definition FILTER_POOL_BUTTON_MASK :: "8 word" where
  "FILTER_POOL_BUTTON_MASK = 32"

definition SPA_WATER_LEVEL_BUTTON_MASK :: "8 word" where
  "SPA_WATER_LEVEL_BUTTON_MASK = 64"

definition MENU_BUTTON_MASK :: "8 word" where
  "MENU_BUTTON_MASK = 128"

definition button_masks :: "8 word list" where
  "button_masks = [HEAT_SPA_BUTTON_MASK, HEAT_POOL_BUTTON_MASK, SPA_JETS_BUTTON_MASK,
     POOL_LIGHT_BUTTON_MASK, FILTER_SPA_BUTTON_MASK, FILTER_POOL_BUTTON_MASK,
     SPA_WATER_LEVEL_BUTTON_MASK, MENU_BUTTON_MASK]"

subsection \<open>The LCD text\<close>

text \<open>
  \<^verbatim>\<open>controller_03.h\<close> lines 19-23: the size of a line buffer and the four glyphs
  of the LCD character generator that stand for arrows. \<^verbatim>\<open>NUL\<close> is the byte that
  ends a C string.
\<close>

definition MAXLINE :: nat where
  "MAXLINE = 500"

definition NUL :: char where
  "NUL = CHR 0x00"

definition DOWNARROW :: char where
  "DOWNARROW = CHR 0x01"

definition UPARROW :: char where
  "UPARROW = CHR 0x02"

definition RIGHTARROW :: char where
  "RIGHTARROW = CHR 0x7E"

definition LEFTARROW :: char where
  "LEFTARROW = CHR 0x7F"

section \<open>The web server (webserver\_esp.cpp)\<close>

text \<open>
  A store through an index outside its array is undefined behaviour in C. The model
  makes it a value: a function that would store at index \<open>i\<close> outside the array
  returns \<open>Inl (Store_Out_Of_Bounds i)\<close> instead of a state.
\<close>

datatype fault =
    Store_Out_Of_Bounds int

subsection \<open>The visitor table\<close>

text \<open>
  \<^verbatim>\<open>struct datetime\<close> (\<^verbatim>\<open>controller_03.h\<close> lines 10-12) is eight bytes;
  the field \<^verbatim>\<open>min\<close> is named \<open>min_byte\<close> here. \<^verbatim>\<open>struct client_t\<close>
  (lines 102-106 of the web server) is one row of the table
  \<^verbatim>\<open>clients[MAX_IP_ADDRESSES]\<close>. The target is the ESP32, where \<^verbatim>\<open>int\<close> and
  \<^verbatim>\<open>long\<close> are both 32 bits wide: \<open>count\<close> is a 32-bit word, compared as a
  signed number (\<open><s\<close>), and \<^verbatim>\<open>INT_MAX\<close> is \<open>2\<^sup>3\<^sup>1 - 1\<close>. The increment
  \<^verbatim>\<open>++clients[ndx].count\<close> is the addition on words.
\<close>

record datetime =
  sec :: "8 word"
  min_byte :: "8 word"
  hour :: "8 word"
  ampm :: "8 word"
  day :: "8 word"
  date :: "8 word"
  month :: "8 word"
  year :: "8 word"

definition MAX_IP_ADDRESSES :: nat where
  "MAX_IP_ADDRESSES = 50"

definition INT_MAX :: "32 word" where
  "INT_MAX = 2147483647"

type_synonym IPV4address = "32 word"

record client_t =
  ip_address :: IPV4address
  count :: "32 word"
  first_time :: datetime
  recent_time :: datetime
  gave_password :: bool

text \<open>
  The loop of \<^verbatim>\<open>remember_ip_address\<close> (lines 119-127), started at \<open>ndx = 0\<close> with
  \<open>empty_ndx = -1\<close>, \<open>min_ndx = -1\<close> and \<open>min_count = INT_MAX\<close>. It leaves the
  function at the first row that holds the address (\<open>Already\<close>), or runs through
  the table and ends with the last empty row and the first row of least count seen
  (\<open>Absent\<close>). The table is the array \<^verbatim>\<open>clients\<close>, a list of
  \<open>MAX_IP_ADDRESSES\<close> rows.
\<close>

datatype scan_result =
    Already nat
  | Absent int int

function scan_clients ::
  "client_t list \<Rightarrow> IPV4address \<Rightarrow> nat \<Rightarrow> int \<Rightarrow> int \<Rightarrow> 32 word \<Rightarrow> scan_result"
where
  "scan_clients clients addr ndx empty_ndx min_ndx min_count =
     (if ndx < MAX_IP_ADDRESSES then
        (if ip_address (clients ! ndx) = addr then Already ndx
         else if count (clients ! ndx) = 0 then
           scan_clients clients addr (ndx + 1) (int ndx) min_ndx min_count
         else if count (clients ! ndx) <s min_count then
           scan_clients clients addr (ndx + 1) empty_ndx (int ndx) (count (clients ! ndx))
         else scan_clients clients addr (ndx + 1) empty_ndx min_ndx min_count)
      else Absent empty_ndx min_ndx)"
  by pat_completeness auto
termination
  by (relation "measure (\<lambda>(clients, addr, ndx, empty_ndx, min_ndx, min_count).
        MAX_IP_ADDRESSES - ndx)") auto

declare scan_clients.simps [simp del]

text \<open>
  \<^verbatim>\<open>remember_ip_address\<close> (lines 118-133), with the clock \<^verbatim>\<open>now\<close> and the
  table passed in and the new table returned together with the index of the row the C
  function returns a pointer to. When neither an empty row nor a row of least count was
  found, \<open>min_ndx\<close> is still \<open>-1\<close> at line 129 and the store goes to
  \<^verbatim>\<open>clients[-1]\<close>.
\<close>

definition remember_ip_address ::
  "datetime \<Rightarrow> client_t list \<Rightarrow> IPV4address \<Rightarrow> fault + client_t list \<times> nat"
where
  "remember_ip_address now clients addr =
     (case scan_clients clients addr 0 (- 1) (- 1) INT_MAX of
        Already ndx \<Rightarrow>
          Inr (clients[ndx := (clients ! ndx)
                 \<lparr>recent_time := now, count := count (clients ! ndx) + 1\<rparr>], ndx)
      | Absent empty_ndx min_ndx \<Rightarrow>
          (let min_ndx = (if empty_ndx \<ge> 0 then empty_ndx else min_ndx)
           in if min_ndx < 0 then Inl (Store_Out_Of_Bounds min_ndx)
              else Inr (clients[nat min_ndx := (clients ! nat min_ndx)
                     \<lparr>ip_address := addr, count := 1, gave_password := False,
                      first_time := now, recent_time := now\<rparr>], nat min_ndx)))"

text \<open>
  The table is a global array, all zero when the program starts. The tables the function
  can produce from there are the reachable ones.
\<close>

definition zero_datetime :: datetime where
  "zero_datetime = \<lparr>sec = 0, min_byte = 0, hour = 0, ampm = 0, day = 0, date = 0,
     month = 0, year = 0\<rparr>"

definition zero_client :: client_t where
  "zero_client = \<lparr>ip_address = 0, count = 0, first_time = zero_datetime,
     recent_time = zero_datetime, gave_password = False\<rparr>"

definition initial_clients :: "client_t list" where
  "initial_clients = replicate MAX_IP_ADDRESSES zero_client"

inductive reachable_clients :: "client_t list \<Rightarrow> bool" where
  start: "reachable_clients initial_clients"
| visit: "reachable_clients clients \<Longrightarrow>
     remember_ip_address now clients addr = Inr (clients', ndx) \<Longrightarrow>
     reachable_clients clients'"

text \<open>
  A row counts as a visitor when its count is not zero (line 176 prints only those).
  \<open>visitors_inv\<close>, \<open>empty_inv\<close> and \<open>min_inv\<close> are the invariants of the
  table and of the loop used in the proofs below.
\<close>

definition no_duplicate_visitors :: "client_t list \<Rightarrow> bool" where
  "no_duplicate_visitors clients \<longleftrightarrow>
     (\<forall>i<length clients. \<forall>j<length clients.
        i \<noteq> j \<and> count (clients ! i) \<noteq> 0 \<and> count (clients ! j) \<noteq> 0 \<longrightarrow>
        ip_address (clients ! i) \<noteq> ip_address (clients ! j))"

definition visitors_inv :: "client_t list \<Rightarrow> bool" where
  "visitors_inv clients \<longleftrightarrow>
     length clients = MAX_IP_ADDRESSES \<and>
     (\<forall>i<MAX_IP_ADDRESSES. \<forall>j<MAX_IP_ADDRESSES.
        i \<noteq> j \<and> ip_address (clients ! i) = ip_address (clients ! j) \<longrightarrow>
        ip_address (clients ! i) = 0) \<and>
     (\<forall>i<MAX_IP_ADDRESSES. ip_address (clients ! i) = 0 \<and> count (clients ! i) \<noteq> 0 \<longrightarrow>
        (\<forall>j<i. ip_address (clients ! j) \<noteq> 0))"

definition empty_inv :: "client_t list \<Rightarrow> nat \<Rightarrow> int \<Rightarrow> bool" where
  "empty_inv cs ndx e \<longleftrightarrow>
     (if e = - 1 then (\<forall>j<ndx. count (cs ! j) \<noteq> 0)
      else 0 \<le> e \<and> nat e < ndx \<and> count (cs ! nat e) = 0 \<and>
           (\<forall>j<ndx. count (cs ! j) = 0 \<longrightarrow> j \<le> nat e))"

definition min_inv :: "client_t list \<Rightarrow> nat \<Rightarrow> int \<Rightarrow> 32 word \<Rightarrow> bool" where
  "min_inv cs ndx m c \<longleftrightarrow>
     sint c \<le> sint INT_MAX \<and>
     (\<forall>j<ndx. count (cs ! j) \<noteq> 0 \<longrightarrow> sint c \<le> sint (count (cs ! j))) \<and>
     (if m = - 1 then c = INT_MAX
      else 0 \<le> m \<and> nat m < ndx \<and> count (cs ! nat m) = c \<and> c \<noteq> 0 \<and>
           sint c < sint INT_MAX \<and>
           (\<forall>j<nat m. count (cs ! j) \<noteq> 0 \<longrightarrow> sint c < sint (count (cs ! j))))"

definition scan_inv :: "client_t list \<Rightarrow> nat \<Rightarrow> int \<Rightarrow> int \<Rightarrow> 32 word \<Rightarrow> bool" where
  "scan_inv cs ndx e m c \<longleftrightarrow> empty_inv cs ndx e \<and> min_inv cs ndx m c"

text \<open>
  Tables used below: \<open>filled_clients n t\<close> has its last \<open>n\<close> rows taken by the
  addresses \<open>51 - n, ..., 50\<close>, each seen once at time \<open>t\<close>;
  \<open>partly_saturated m t\<close> is full, and its first \<open>m\<close> rows have reached the
  count \<open>INT_MAX\<close>; \<open>saturated_clients t\<close> is full with every count at
  \<open>INT_MAX\<close>.
\<close>

definition fresh_client :: "IPV4address \<Rightarrow> datetime \<Rightarrow> client_t" where
  "fresh_client addr t = \<lparr>ip_address = addr, count = 1, first_time = t, recent_time = t,
     gave_password = False\<rparr>"

definition filled_clients :: "nat \<Rightarrow> datetime \<Rightarrow> client_t list" where
  "filled_clients n t =
     map (\<lambda>j. if j < MAX_IP_ADDRESSES - n then zero_client else fresh_client (of_nat (Suc j)) t)
       [0..<MAX_IP_ADDRESSES]"

definition partly_saturated :: "nat \<Rightarrow> datetime \<Rightarrow> client_t list" where
  "partly_saturated m t =
     map (\<lambda>j. if j < m
            then \<lparr>ip_address = of_nat (Suc j), count = INT_MAX, first_time = t,
                 recent_time = t, gave_password = False\<rparr>
            else fresh_client (of_nat (Suc j)) t)
       [0..<MAX_IP_ADDRESSES]"

definition saturated_clients :: "datetime \<Rightarrow> client_t list" where
  "saturated_clients t =
     map (\<lambda>i. \<lparr>ip_address = of_nat (Suc i), count = INT_MAX, first_time = t,
                 recent_time = t, gave_password = False\<rparr>) [0..<MAX_IP_ADDRESSES]"

subsection \<open>The LCD lines as HTML\<close>

text \<open>
  The HTML arrows of lines 84-87, and the two ways the function stores into its buffer
  \<^verbatim>\<open>char outmsg[MAXLINE]\<close>: one byte (\<open>poke\<close>), or a string and the \<open>NUL\<close>
  that ends it (\<open>strcpy\<close>; \<^verbatim>\<open>sprintf\<close> stores its output the same way). Both
  fail on the first store outside the buffer. \<open>c_string\<close> reads a buffer as C does,
  up to the first \<open>NUL\<close>.
\<close>

definition HTML_DOWNARROW :: string where
  "HTML_DOWNARROW = ''&#8595;''"

definition HTML_UPARROW :: string where
  "HTML_UPARROW = ''&#8593;''"

definition HTML_RIGHTARROW :: string where
  "HTML_RIGHTARROW = ''&#8594;''"

definition HTML_LEFTARROW :: string where
  "HTML_LEFTARROW = ''&#8592;''"

definition poke :: "nat \<Rightarrow> char \<Rightarrow> char list \<Rightarrow> fault + char list" where
  "poke i c buf = (if i < length buf then Inr (buf[i := c]) else Inl (Store_Out_Of_Bounds (int i)))"

fun strcpy :: "nat \<Rightarrow> string \<Rightarrow> char list \<Rightarrow> fault + char list" where
  "strcpy dst [] buf = poke dst NUL buf"
| "strcpy dst (c # cs) buf =
     (case poke dst c buf of
        Inl e \<Rightarrow> Inl e
      | Inr buf' \<Rightarrow> strcpy (Suc dst) cs buf')"

definition c_string :: "char list \<Rightarrow> string" where
  "c_string mem = takeWhile (\<lambda>c. c \<noteq> NUL) mem"

text \<open>
  The loop of \<^verbatim>\<open>expand_arrows_and_blanks\<close> (lines 239-252). \<open>src\<close> is the memory
  from \<^verbatim>\<open>lcdbuf[row]\<close> on: the loop reads it until a \<open>NUL\<close> and does not look at
  the length of the row, so \<open>src\<close> may be any list of bytes (the loop also stops
  where the list ends). \<open>dst\<close> is the offset
  \<^verbatim>\<open>dst - outmsg\<close>; \<^verbatim>\<open>sizeof(HTML_LEFTARROW) - 1\<close> is the length of the string,
  and \<^verbatim>\<open>sprintf\<close> returns the number of characters it wrote.
\<close>

fun expand_loop ::
  "bool \<Rightarrow> int \<Rightarrow> int \<Rightarrow> int \<Rightarrow> char list \<Rightarrow> int \<Rightarrow> nat \<Rightarrow> char list \<Rightarrow> fault + nat \<times> char list"
where
  "expand_loop blinking lcdrow lcdcol row [] col dst outmsg = Inr (dst, outmsg)"
| "expand_loop blinking lcdrow lcdcol row (c # src) col dst outmsg =
     (if \<not> (c \<noteq> NUL \<and> dst < MAXLINE - 15) then Inr (dst, outmsg)
      else if c = LEFTARROW then
        (case strcpy dst HTML_LEFTARROW outmsg of
           Inl e \<Rightarrow> Inl e
         | Inr out' \<Rightarrow>
             expand_loop blinking lcdrow lcdcol row src (col + 1) (dst + length HTML_LEFTARROW) out')
      else if c = UPARROW then
        (case strcpy dst HTML_UPARROW outmsg of
           Inl e \<Rightarrow> Inl e
         | Inr out' \<Rightarrow>
             expand_loop blinking lcdrow lcdcol row src (col + 1) (dst + length HTML_UPARROW) out')
      else if c = RIGHTARROW then
        (case strcpy dst HTML_RIGHTARROW outmsg of
           Inl e \<Rightarrow> Inl e
         | Inr out' \<Rightarrow>
             expand_loop blinking lcdrow lcdcol row src (col + 1) (dst + length HTML_RIGHTARROW) out')
      else if c = DOWNARROW then
        (case strcpy dst HTML_DOWNARROW outmsg of
           Inl e \<Rightarrow> Inl e
         | Inr out' \<Rightarrow>
             expand_loop blinking lcdrow lcdcol row src (col + 1) (dst + length HTML_DOWNARROW) out')
      else if c = CHR '' '' then
        (case strcpy dst ''&nbsp;'' outmsg of
           Inl e \<Rightarrow> Inl e
         | Inr out' \<Rightarrow> expand_loop blinking lcdrow lcdcol row src (col + 1) (dst + 6) out')
      else if blinking \<and> row = lcdrow \<and> col = lcdcol then
        (case strcpy dst (''<u>'' @ [c] @ ''</u>'') outmsg of
           Inl e \<Rightarrow> Inl e
         | Inr out' \<Rightarrow>
             expand_loop blinking lcdrow lcdcol row src (col + 1)
               (dst + length (''<u>'' @ [c] @ ''</u>'')) out')
      else
        (case poke dst c outmsg of
           Inl e \<Rightarrow> Inl e
         | Inr out' \<Rightarrow> expand_loop blinking lcdrow lcdcol row src (col + 1) (Suc dst) out'))"

text \<open>
  The function: the loop from offset 0 and column 0, then the line break (line 253);
  the chunk sent to the client is the C string in the buffer. \<open>outmsg\<close> is the
  content of the buffer on entry, which C leaves unspecified.
\<close>

definition expand_arrows_and_blanks ::
  "bool \<Rightarrow> int \<Rightarrow> int \<Rightarrow> int \<Rightarrow> char list \<Rightarrow> char list \<Rightarrow> fault + string"
where
  "expand_arrows_and_blanks blinking lcdrow lcdcol row src outmsg =
     (case expand_loop blinking lcdrow lcdcol row src 0 0 outmsg of
        Inl e \<Rightarrow> Inl e
      | Inr (dst, out') \<Rightarrow>
          (case strcpy dst (''<br>'' @ [CHR 0x0A]) out' of
             Inl e \<Rightarrow> Inl e
           | Inr out'' \<Rightarrow> Inr (c_string out'')))"

definition lcd_row_sample :: "char list" where
  "lcd_row_sample = ''a b'' @ [LEFTARROW, NUL]"

subsection \<open>Buttons pushed from the browser\<close>

text \<open>
  \<^verbatim>\<open>sscanf(postdata, "button=%d", &button)\<close> (line 414). The characters of
  \<^verbatim>\<open>button=\<close> must match the input one by one. \<^verbatim>\<open>%d\<close> then skips white space,
  takes an optional sign and the longest run of decimal digits, and fails when there is
  no digit. The C library of the ESP32 converts the digits with \<^verbatim>\<open>strtol\<close>, which
  stops at the ends of the 32-bit range. \<open>sscanf_button\<close> is \<open>Some\<close> the number
  stored into \<^verbatim>\<open>button\<close> when the call returns 1, and \<open>None\<close> otherwise.
\<close>

definition LONG_MAX :: int where
  "LONG_MAX = 2147483647"

definition LONG_MIN :: int where
  "LONG_MIN = - 2147483648"

definition isspace :: "char \<Rightarrow> bool" where
  "isspace c \<longleftrightarrow> c \<in> set [CHR '' '', CHR 0x09, CHR 0x0A, CHR 0x0B, CHR 0x0C, CHR 0x0D]"

definition isdigit :: "char \<Rightarrow> bool" where
  "isdigit c \<longleftrightarrow> c \<in> set ''0123456789''"

definition digit_val :: "char \<Rightarrow> int" where
  "digit_val c = int (of_char c) - 48"

definition decimal :: "string \<Rightarrow> int" where
  "decimal ds = foldl (\<lambda>acc c. 10 * acc + digit_val c) 0 ds"

definition strtol_clamp :: "int \<Rightarrow> int" where
  "strtol_clamp v = (if v > LONG_MAX then LONG_MAX else if v < LONG_MIN then LONG_MIN else v)"

fun match_literal :: "string \<Rightarrow> string \<Rightarrow> string option" where
  "match_literal [] inp = Some inp"
| "match_literal (f # fs) [] = None"
| "match_literal (f # fs) (c # cs) = (if f = c then match_literal fs cs else None)"

fun scan_sign :: "string \<Rightarrow> bool \<times> string" where
  "scan_sign [] = (False, [])"
| "scan_sign (c # cs) =
     (if c = CHR ''-'' then (True, cs)
      else if c = CHR ''+'' then (False, cs)
      else (False, c # cs))"

definition scan_int :: "string \<Rightarrow> int option" where
  "scan_int inp =
     (let (negative, rest) = scan_sign (dropWhile isspace inp);
          digits = takeWhile isdigit rest
      in if digits = [] then None
         else Some (strtol_clamp (if negative then - decimal digits else decimal digits)))"

definition sscanf_button :: "string \<Rightarrow> int option" where
  "sscanf_button postdata =
     (case match_literal ''button='' postdata of
        None \<Rightarrow> None
      | Some rest \<Rightarrow> scan_int rest)"

text \<open>
  What the handler does to the controller is to set an entry of
  \<^verbatim>\<open>button_webpushed\<close>, to call \<^verbatim>\<open>temp_change\<close> (declared in
  \<^verbatim>\<open>controller_03.h\<close>, defined in the main module) and to print a line with
  \<^verbatim>\<open>dprint\<close>. The state records the array, the arguments of the calls of
  \<^verbatim>\<open>temp_change\<close> in order, and the lines printed, one constructor for each of the
  four messages.
\<close>

datatype post_action =
    Got_Button int
  | Got_Temp_Up
  | Got_Temp_Down
  | Unexpected nat string

record web_state =
  button_webpushed :: "bool list"
  temp_change_calls :: "int list"
  dprint_log :: "post_action list"

datatype recv_result =
    Received string
  | Recv_Failed int

text \<open>
  \<^verbatim>\<open>button_POST_handler\<close> (lines 406-429). \<open>post_dispatch\<close> is the chain of tests
  of lines 414-424 and \<open>perform\<close> the statements of the branch taken.
  \<^verbatim>\<open>httpd_req_recv\<close> delivers at most 24 bytes of the body, or a negative error
  code; the handler stores the final \<open>NUL\<close> at \<^verbatim>\<open>postdata[datalen]\<close> without
  looking at the sign of \<open>datalen\<close>. The calls before and after the tests
  (\<^verbatim>\<open>report_ip_address\<close>, the delay and the page sent back) write the visitor table
  and read the controller's state; they are not part of this function's model.
\<close>

definition post_dispatch :: "nat \<Rightarrow> string \<Rightarrow> post_action" where
  "post_dispatch datalen postdata =
     (let other =
        (if postdata = ''temp=up'' then Got_Temp_Up
         else if postdata = ''temp=down'' then Got_Temp_Down
         else Unexpected datalen postdata)
      in case sscanf_button postdata of
           None \<Rightarrow> other
         | Some button \<Rightarrow> if button \<ge> 0 \<and> button \<le> 7 then Got_Button button else other)"

fun perform :: "post_action \<Rightarrow> web_state \<Rightarrow> web_state" where
  "perform (Got_Button button) st =
     st\<lparr>dprint_log := dprint_log st @ [Got_Button button],
        button_webpushed := (button_webpushed st)[nat button := True]\<rparr>"
| "perform Got_Temp_Up st =
     st\<lparr>dprint_log := dprint_log st @ [Got_Temp_Up],
        temp_change_calls := temp_change_calls st @ [1]\<rparr>"
| "perform Got_Temp_Down st =
     st\<lparr>dprint_log := dprint_log st @ [Got_Temp_Down],
        temp_change_calls := temp_change_calls st @ [- 1]\<rparr>"
| "perform (Unexpected datalen postdata) st =
     st\<lparr>dprint_log := dprint_log st @ [Unexpected datalen postdata]\<rparr>"

definition button_POST_handler :: "recv_result \<Rightarrow> web_state \<Rightarrow> fault + web_state" where
  "button_POST_handler r st =
     (case r of
        Recv_Failed datalen \<Rightarrow> Inl (Store_Out_Of_Bounds datalen)
      | Received body \<Rightarrow>
          (let received = take 24 body;
               postdata = c_string received
           in Inr (perform (post_dispatch (length received) postdata) st)))"

text \<open>
  The specification's words for the handler's first test: a text parses as
  \<^verbatim>\<open>button=\<close>\<open>b\<close>. \<open>spec_parses_as_button\<close> says what that means without the
  library routine: the text is the seven characters \<^verbatim>\<open>button=\<close>, then any white
  space, an optional sign, and one or more decimal digits that are not followed by a
  further digit; \<open>b\<close> is the number the sign and the digits denote, the digits read in
  positional notation (\<open>number_of\<close>). Whatever follows the number is not looked at.
\<close>

definition digit_number :: "char \<Rightarrow> nat" where
  "digit_number c = length (takeWhile (\<lambda>d. d \<noteq> c) ''0123456789'')"

fun number_of :: "string \<Rightarrow> nat" where
  "number_of [] = 0"
| "number_of (d # ds) = digit_number d * 10 ^ length ds + number_of ds"

definition spec_parses_as_button :: "string \<Rightarrow> int \<Rightarrow> bool" where
  "spec_parses_as_button postdata b \<longleftrightarrow>
     (\<exists>blanks sign digits rest.
        postdata = ''button='' @ blanks @ sign @ digits @ rest \<and>
        set blanks \<subseteq> set [CHR '' '', CHR 0x09, CHR 0x0A, CHR 0x0B, CHR 0x0C, CHR 0x0D] \<and>
        sign \<in> set [[], ''+'', ''-''] \<and>
        digits \<noteq> [] \<and> set digits \<subseteq> set ''0123456789'' \<and>
        (rest = [] \<or> hd rest \<notin> set ''0123456789'') \<and>
        b = (if sign = ''-'' then - int (number_of digits) else int (number_of digits)))"

section \<open>Parts of the controller that are not in the sources\<close>

subsection \<open>The temperature setpoint\<close>

text \<open>
  Modelled from the spec: the body of \<^verbatim>\<open>temp_change\<close> is missing
  (\<^verbatim>\<open>controller_03.h\<close> line 177 only declares
  \<^verbatim>\<open>void temp_change (int8_t direction)\<close>). The spec, section 4.5: each encoder
  tick adjusts the active target temperature by 1 degree, clamped to the bound set
  determined by which accessory is currently the heat target; section 3: the target is
  bounded to \<open>[TEMP_MIN, TEMP_MAX_POOL]\<close> or \<open>[TEMP_MIN, TEMP_MAX_SPA]\<close>. The
  spec names no bound set when nothing is heated; the model gives \<open>None\<close> there.
\<close>

definition temp_bounds :: "heater_t \<Rightarrow> (int \<times> int) option" where
  "temp_bounds heater_mode =
     (case heater_mode of
        HEATING_NONE \<Rightarrow> None
      | HEATING_SPA \<Rightarrow> Some (TEMP_MIN, TEMP_MAX_SPA)
      | HEATING_POOL \<Rightarrow> Some (TEMP_MIN, TEMP_MAX_POOL))"

text \<open>
  Modelled from the spec: \<^verbatim>\<open>temp_change\<close>, whose body is missing. The tick is the
  \<^verbatim>\<open>int8_t direction\<close> of the declaration, +1 or -1 for one detent of the encoder
  (section 4.1); the new target is the old one plus the tick, clamped to the bounds.
\<close>

definition temp_change :: "heater_t \<Rightarrow> 8 word \<Rightarrow> int \<Rightarrow> int option" where
  "temp_change heater_mode direction target =
     (case temp_bounds heater_mode of
        None \<Rightarrow> None
      | Some (lo, hi) \<Rightarrow> Some (max lo (min hi (target + sint direction))))"

text \<open>
  Modelled from the spec: a run of encoder ticks, each one a call of
  \<^verbatim>\<open>temp_change\<close> (the caller, the encoder routine, is missing as well).
\<close>

fun encoder_ticks :: "heater_t \<Rightarrow> 8 word list \<Rightarrow> int \<Rightarrow> int option" where
  "encoder_ticks heater_mode [] target = Some target"
| "encoder_ticks heater_mode (direction # rest) target =
     (case temp_change heater_mode direction target of
        None \<Rightarrow> None
      | Some target' \<Rightarrow> encoder_ticks heater_mode rest target')"

subsection \<open>Debounced buttons\<close>

text \<open>
  Modelled from the spec: the routine that reads the buttons is missing (the header
  gives only \<^verbatim>\<open>DEBOUNCE_DELAY\<close> and the button masks). The spec, section 4.1:
  the eight button lines are sampled at a fixed poll tick; a button's debounced state
  changes only after the raw level has been stable for the debounce window (50 ms);
  transitions within the window produce no edge. A line keeps its debounced state, the
  raw level of the latest sample and the time of the sample at which that level
  appeared. A sample with a new raw level restarts the window; a sample that finds the
  raw level unchanged for the whole window, and different from the debounced state,
  changes the debounced state and is an edge. Times are in milliseconds.
\<close>

record button_line =
  debounced :: bool
  raw_level :: bool
  stable_since :: nat

definition sample_line :: "nat \<Rightarrow> bool \<Rightarrow> button_line \<Rightarrow> button_line \<times> bool" where
  "sample_line now raw b =
     (if raw \<noteq> raw_level b then (b\<lparr>raw_level := raw, stable_since := now\<rparr>, False)
      else if raw \<noteq> debounced b \<and> stable_since b + DEBOUNCE_DELAY \<le> now
        then (b\<lparr>debounced := raw\<rparr>, True)
      else (b, False))"

text \<open>
  Modelled from the spec: one poll of the eight lines, which is missing with the
  routine above. A poll reads the eight raw levels as one byte, the level of a button
  under its mask, and samples every line at the same time. \<open>button_edges\<close> are the
  times at which one button has an edge during a list of polls.
\<close>

definition raw_of :: "8 word \<Rightarrow> nat \<Rightarrow> bool" where
  "raw_of sample button \<longleftrightarrow> sample AND button_masks ! button \<noteq> 0"

definition poll :: "nat \<Rightarrow> 8 word \<Rightarrow> button_line list \<Rightarrow> button_line list \<times> bool list" where
  "poll now sample lines =
     (map (\<lambda>button. fst (sample_line now (raw_of sample button) (lines ! button))) [0..<NUM_BUTTONS],
      map (\<lambda>button. snd (sample_line now (raw_of sample button) (lines ! button))) [0..<NUM_BUTTONS])"

fun button_edges :: "nat \<Rightarrow> button_line list \<Rightarrow> (nat \<times> 8 word) list \<Rightarrow> nat list" where
  "button_edges button lines [] = []"
| "button_edges button lines ((now, sample) # rest) =
     (if snd (poll now sample lines) ! button then [now] else []) @
     button_edges button (fst (poll now sample lines)) rest"

text \<open>
  Modelled from the spec: the same debouncer for one line on its own (the routine is
  missing): the times of its edges and its state after a list of samples.
  \<open>line_samples\<close> are the raw levels of one button in a list of polls.
\<close>

fun edge_times :: "button_line \<Rightarrow> (nat \<times> bool) list \<Rightarrow> nat list" where
  "edge_times b [] = []"
| "edge_times b ((now, raw) # rest) =
     (if snd (sample_line now raw b) then [now] else []) @
     edge_times (fst (sample_line now raw b)) rest"

fun final_line :: "button_line \<Rightarrow> (nat \<times> bool) list \<Rightarrow> button_line" where
  "final_line b [] = b"
| "final_line b ((now, raw) # rest) = final_line (fst (sample_line now raw b)) rest"

definition final_raw :: "button_line \<Rightarrow> (nat \<times> bool) list \<Rightarrow> bool" where
  "final_raw b samples = (if samples = [] then raw_level b else snd (last samples))"

definition line_samples :: "nat \<Rightarrow> (nat \<times> 8 word) list \<Rightarrow> (nat \<times> bool) list" where
  "line_samples button samples = map (\<lambda>(t, sample). (t, raw_of sample button)) samples"

text \<open>
  Modelled from the spec: the words of the property about the missing routine.
  \<open>poll_times\<close>: the polls come at increasing times, none before the time the line's
  state records. \<open>stable_for\<close>: the raw level did not change during the debounce
  window that ends at \<open>t\<close>, that is, from a sample (or from the time the initial
  state records) at least \<open>DEBOUNCE_DELAY\<close> before \<open>t\<close> up to \<open>t\<close>.
  \<open>burst_in_window\<close>: the line starts at rest, and the raw level changes only at
  samples inside one window of \<open>DEBOUNCE_DELAY\<close> milliseconds starting at \<open>w\<close>
  (before the burst it is the level of the initial state, after it the level the burst
  ended with).
\<close>

definition poll_times :: "button_line \<Rightarrow> (nat \<times> bool) list \<Rightarrow> bool" where
  "poll_times b samples \<longleftrightarrow>
     sorted_wrt (<) (map fst samples) \<and> (\<forall>t \<in> set (map fst samples). stable_since b \<le> t)"

definition stable_for :: "button_line \<Rightarrow> (nat \<times> bool) list \<Rightarrow> nat \<Rightarrow> bool" where
  "stable_for b samples t \<longleftrightarrow>
     (\<exists>t0 r. t0 + DEBOUNCE_DELAY \<le> t \<and>
        ((t0, r) \<in> set samples \<or> (t0 = stable_since b \<and> r = raw_level b)) \<and>
        (\<forall>(t', r') \<in> set samples. t0 \<le> t' \<and> t' \<le> t \<longrightarrow> r' = r))"

definition burst_in_window ::
  "button_line \<Rightarrow> (nat \<times> bool) list \<Rightarrow> (nat \<times> bool) list \<Rightarrow> (nat \<times> bool) list \<Rightarrow> nat \<Rightarrow> bool"
where
  "burst_in_window b pre burst post w \<longleftrightarrow>
     raw_level b = debounced b \<and>
     (\<forall>(t, r) \<in> set pre. r = raw_level b) \<and>
     (\<forall>(t, r) \<in> set burst. w \<le> t \<and> t < w + DEBOUNCE_DELAY) \<and>
     (\<forall>(t, r) \<in> set post. r = final_raw b (pre @ burst))"

text \<open>
  A sample run: eight lines at rest, polled every 10 ms while the first button is
  pressed and bounces for 30 ms.
\<close>

definition idle_lines :: "button_line list" where
  "idle_lines = replicate NUM_BUTTONS \<lparr>debounced = False, raw_level = False, stable_since = 0\<rparr>"

definition bouncing_press :: "(nat \<times> 8 word) list" where
  "bouncing_press = [(0, 0), (10, 1), (20, 0), (30, 1), (40, 1), (50, 1), (60, 1), (70, 1),
     (80, 1), (90, 1)]"

section \<open>Properties of the declarations\<close>

text \<open>
  Claim C2. In the build without debug times (\<^verbatim>\<open>DEBUG_TIMES\<close> zero or undefined) the
  wait after the heater is switched off is 60 seconds, the wait for a valve change is
  45 seconds, and the waits after pump off and after pump on are 3 seconds each, in
  both versions of the header.
\<close>

theorem sequencer_delays:
  "DELAY_HEATER_OFF 0 = 60 \<and> DELAY_VALVE_CHANGE 0 = 45 \<and>
   DELAY_PUMP_OFF = 3 \<and> DELAY_PUMP_ON = 3 \<and>
   DELAY_HEATER_OFF_02 0 = 60 \<and> DELAY_VALVE_CHANGE_02 0 = 45 \<and>
   DELAY_PUMP_OFF_02 = 3 \<and> DELAY_PUMP_ON_02 = 3"
  by (simp add: DELAY_HEATER_OFF_def DELAY_VALVE_CHANGE_def DELAY_PUMP_OFF_def
      DELAY_PUMP_ON_def DELAY_HEATER_OFF_02_def DELAY_VALVE_CHANGE_02_def
      DELAY_PUMP_OFF_02_def DELAY_PUMP_ON_02_def)

text \<open>
  Claim C3. The durations of the timeout scheduler, in minutes: spa heating 180, pool
  heating 1440, spa fill 5, spa empty 5, pool light 180, spa jets 60, pool filter run 20
  and spa filter run 10, in both versions of the header.
\<close>

theorem timeout_minutes:
  "MODE_SPA_TIMEOUT = 180 \<and> MODE_POOL_TIMEOUT = 1440 \<and>
   MODE_FILL_TIMEOUT = 5 \<and> MODE_EMPTY_TIMEOUT = 5 \<and>
   POOL_LIGHT_TIMEOUT = 180 \<and> SPA_JETS_TIMEOUT = 60 \<and>
   FILTER_POOL_TIME = 20 \<and> FILTER_SPA_TIME = 10 \<and>
   MODE_SPA_TIMEOUT_02 = 180 \<and> MODE_POOL_TIMEOUT_02 = 1440 \<and>
   MODE_FILL_TIMEOUT_02 = 5 \<and> MODE_EMPTY_TIMEOUT_02 = 5 \<and>
   POOL_LIGHT_TIMEOUT_02 = 180 \<and> SPA_JETS_TIMEOUT_02 = 60 \<and>
   FILTER_POOL_TIME_02 = 20 \<and> FILTER_SPA_TIME_02 = 10"
  by (simp add: MODE_SPA_TIMEOUT_def MODE_POOL_TIMEOUT_def MODE_FILL_TIMEOUT_def
      MODE_EMPTY_TIMEOUT_def POOL_LIGHT_TIMEOUT_def SPA_JETS_TIMEOUT_def
      FILTER_POOL_TIME_def FILTER_SPA_TIME_def
      MODE_SPA_TIMEOUT_02_def MODE_POOL_TIMEOUT_02_def MODE_FILL_TIMEOUT_02_def
      MODE_EMPTY_TIMEOUT_02_def POOL_LIGHT_TIMEOUT_02_def SPA_JETS_TIMEOUT_02_def
      FILTER_POOL_TIME_02_def FILTER_SPA_TIME_02_def)

lemmas relay_mask_defs = POOL_PUMP_RELAY_def SPA_PUMP_RELAY_def SPA_JETS_PUMP_RELAY_def
  HEAT_POOL_RELAY_def HEAT_SPA_RELAY_def POOL_VALVE_RELAY_def SPA_VALVE_RELAY_def
  HEATER_VALVE_RELAY_def POOL_LIGHT_RELAY_def SPARE_RELAY_def

lemmas relay_pin_defs = POOL_PUMP_RELAY_02_def SPA_PUMP_RELAY_02_def
  SPA_JETS_PUMP_RELAY_02_def HEAT_POOL_RELAY_02_def HEAT_SPA_RELAY_02_def
  POOL_VALVE_RELAY_02_def SPA_VALVE_RELAY_02_def HEATER_VALVE_RELAY_02_def
  POOL_LIGHT_RELAY_02_def SPARE_RELAY_02_def

lemma UNIV_global_mode_t:
  "(UNIV :: global_mode_t set) = {MODE_IDLE, MODE_HEAT_SPA, MODE_HEAT_POOL, MODE_FILL_SPA,
     MODE_EMPTY_SPA, MODE_FILTER_POOL, MODE_FILTER_SPA}"
  using global_mode_t.exhaust by auto

lemma UNIV_vconfig_t:
  "(UNIV :: vconfig_t set) = {VALVES_UNDEFINED, VALVES_HEAT_SPA, VALVES_HEAT_POOL,
     VALVES_FILL_SPA, VALVES_EMPTY_SPA}"
  using vconfig_t.exhaust by auto

lemma UNIV_pump_status_t: "(UNIV :: pump_status_t set) = {PUMP_NONE, PUMP_SPA, PUMP_POOL}"
  using pump_status_t.exhaust by auto

lemma UNIV_heater_t: "(UNIV :: heater_t set) = {HEATING_NONE, HEATING_SPA, HEATING_POOL}"
  using heater_t.exhaust by auto

text \<open>
  Claim C6. The mode has exactly the seven values IDLE, HEAT_SPA, HEAT_POOL, FILL_SPA,
  EMPTY_SPA, FILTER_POOL and FILTER_SPA, with IDLE first (the value 0, that of a global
  variable before any assignment); the valve configuration has exactly five values, one
  of them UNDEFINED; the pump status and the heater mode have exactly the three values
  NONE, SPA and POOL each.
\<close>

theorem enumerations_exact:
  "(UNIV :: global_mode_t set) = {MODE_IDLE, MODE_HEAT_SPA, MODE_HEAT_POOL, MODE_FILL_SPA,
     MODE_EMPTY_SPA, MODE_FILTER_POOL, MODE_FILTER_SPA} \<and>
   card (UNIV :: global_mode_t set) = 7 \<and>
   map global_mode_code [MODE_IDLE, MODE_HEAT_SPA, MODE_HEAT_POOL, MODE_FILL_SPA,
     MODE_EMPTY_SPA, MODE_FILTER_POOL, MODE_FILTER_SPA] = [0, 1, 2, 3, 4, 5, 6] \<and>
   (UNIV :: vconfig_t set) = {VALVES_UNDEFINED, VALVES_HEAT_SPA, VALVES_HEAT_POOL,
     VALVES_FILL_SPA, VALVES_EMPTY_SPA} \<and>
   card (UNIV :: vconfig_t set) = 5 \<and>
   map vconfig_code [VALVES_UNDEFINED, VALVES_HEAT_SPA, VALVES_HEAT_POOL,
     VALVES_FILL_SPA, VALVES_EMPTY_SPA] = [0, 1, 2, 3, 4] \<and>
   (UNIV :: pump_status_t set) = {PUMP_NONE, PUMP_SPA, PUMP_POOL} \<and>
   card (UNIV :: pump_status_t set) = 3 \<and>
   map pump_status_code [PUMP_NONE, PUMP_SPA, PUMP_POOL] = [0, 1, 2] \<and>
   (UNIV :: heater_t set) = {HEATING_NONE, HEATING_SPA, HEATING_POOL} \<and>
   card (UNIV :: heater_t set) = 3 \<and>
   map heater_code [HEATING_NONE, HEATING_SPA, HEATING_POOL] = [0, 1, 2]"
proof -
  have "card (UNIV :: global_mode_t set) = 7" by (simp add: UNIV_global_mode_t)
  moreover have "card (UNIV :: vconfig_t set) = 5" by (simp add: UNIV_vconfig_t)
  moreover have "card (UNIV :: pump_status_t set) = 3" by (simp add: UNIV_pump_status_t)
  moreover have "card (UNIV :: heater_t set) = 3" by (simp add: UNIV_heater_t)
  ultimately show ?thesis
    using UNIV_global_mode_t UNIV_vconfig_t UNIV_pump_status_t UNIV_heater_t by simp
qed

lemma disjoint_masks_frame:
  fixes a b s :: "16 word"
  assumes "a AND b = 0"
  shows "(s OR a) AND b = s AND b" and "(s AND NOT a) AND b = s AND b"
proof -
  have d: "\<not> (bit a n \<and> bit b n)" for n
  proof -
    have "bit (a AND b) n = bit (0 :: 16 word) n" using assms by simp
    then show ?thesis by (simp add: bit_and_iff)
  qed
  show "(s OR a) AND b = s AND b"
    by (rule bit_eqI) (use d in \<open>auto simp: bit_and_iff bit_or_iff\<close>)
  show "(s AND NOT a) AND b = s AND b"
    by (rule bit_eqI) (use d in \<open>auto simp: bit_and_iff bit_not_iff\<close>)
qed

lemma relay_masks_pairwise:
  "\<forall>i<10. \<forall>j<10. i \<noteq> j \<longrightarrow> relay_masks ! i AND relay_masks ! j = 0"
proof -
  have "\<forall>i\<in>set [0..<10]. \<forall>j\<in>set [0..<10]. i \<noteq> j \<longrightarrow> relay_masks ! i AND relay_masks ! j = 0"
    unfolding relay_masks_def relay_mask_defs by code_simp
  then show ?thesis by simp
qed

text \<open>
  Claim C7. There are exactly ten relays. In version 3 their masks are ten different
  single bits of the 16-bit relay word (bits 8 to 15, then 0 and 1), no two of them
  share a bit, and so setting or clearing the bit of one relay in any relay word leaves
  the bit of every other relay as it was. Version 2 has ten different pins.
\<close>

theorem relays_independent:
  "length relay_masks = 10 \<and> distinct relay_masks \<and>
   relay_masks = map (\<lambda>k. push_bit k 1) [8, 9, 10, 11, 12, 13, 14, 15, 0, 1] \<and>
   (\<forall>i<10. \<forall>j<10. i \<noteq> j \<longrightarrow> relay_masks ! i AND relay_masks ! j = 0) \<and>
   (\<forall>i<10. \<forall>j<10. i \<noteq> j \<longrightarrow>
      (\<forall>s. (s OR relay_masks ! i) AND relay_masks ! j = s AND relay_masks ! j \<and>
           (s AND NOT (relay_masks ! i)) AND relay_masks ! j = s AND relay_masks ! j)) \<and>
   length relay_pins_02 = 10 \<and> distinct relay_pins_02"
proof -
  have bits: "relay_masks = map (\<lambda>k. push_bit k 1) [8, 9, 10, 11, 12, 13, 14, 15, 0, 1]"
    by (simp add: relay_masks_def relay_mask_defs)
  have dist: "distinct relay_masks"
    by (simp add: relay_masks_def relay_mask_defs)
  have len: "length relay_masks = 10"
    by (simp add: relay_masks_def)
  have pins: "length relay_pins_02 = 10 \<and> distinct relay_pins_02"
    by (simp add: relay_pins_02_def relay_pin_defs)
  have frame: "\<forall>i<10. \<forall>j<10. i \<noteq> j \<longrightarrow>
      (\<forall>s. (s OR relay_masks ! i) AND relay_masks ! j = s AND relay_masks ! j \<and>
           (s AND NOT (relay_masks ! i)) AND relay_masks ! j = s AND relay_masks ! j)"
    using relay_masks_pairwise disjoint_masks_frame by blast
  show ?thesis
    using bits dist len pins frame relay_masks_pairwise by blast
qed

theorem relays_independent_witness:
  "(0 :: nat) < 10 \<and> (5 :: nat) < 10 \<and> (0 :: nat) \<noteq> 5 \<and>
   relay_masks ! 0 = POOL_PUMP_RELAY \<and> relay_masks ! 5 = POOL_VALVE_RELAY \<and>
   POOL_PUMP_RELAY AND POOL_VALVE_RELAY = 0 \<and>
   (POOL_VALVE_RELAY OR POOL_PUMP_RELAY) AND POOL_VALVE_RELAY = POOL_VALVE_RELAY \<and>
   (POOL_VALVE_RELAY AND NOT POOL_PUMP_RELAY) AND POOL_VALVE_RELAY = POOL_VALVE_RELAY"
proof -
  have i: "(0 :: nat) < 10" and j: "(5 :: nat) < 10" and ij: "(0 :: nat) \<noteq> 5"
    by simp_all
  have r0: "relay_masks ! 0 = POOL_PUMP_RELAY" and r5: "relay_masks ! 5 = POOL_VALVE_RELAY"
    by (simp_all add: relay_masks_def)
  from relays_independent i j ij
  have "relay_masks ! 0 AND relay_masks ! 5 = 0"
    and "(POOL_VALVE_RELAY OR relay_masks ! 0) AND relay_masks ! 5 = POOL_VALVE_RELAY AND relay_masks ! 5"
    and "(POOL_VALVE_RELAY AND NOT (relay_masks ! 0)) AND relay_masks ! 5 = POOL_VALVE_RELAY AND relay_masks ! 5"
    by blast+
  then show ?thesis using r0 r5 by simp
qed

section \<open>Properties of the web server\<close>

subsection \<open>The LCD lines as HTML\<close>

lemma poke_in_bounds:
  "i < length buf \<Longrightarrow> poke i c buf = Inr (buf[i := c])"
  by (simp add: poke_def)

lemma strcpy_in_bounds:
  "dst + length s < length buf \<Longrightarrow>
   \<exists>buf'. strcpy dst s buf = Inr buf' \<and> length buf' = length buf"
proof (induction s arbitrary: dst buf)
  case Nil
  then show ?case by (simp add: poke_def)
next
  case (Cons c cs)
  from Cons.prems have "dst < length buf" by simp
  then have p: "poke dst c buf = Inr (buf[dst := c])" by (rule poke_in_bounds)
  from Cons.prems have "Suc dst + length cs < length (buf[dst := c])" by simp
  from Cons.IH [OF this] p show ?case by simp
qed

lemma copy_then_loop_in_bounds:
  assumes fits: "dst + length s < length outmsg"
    and len: "length outmsg = MAXLINE"
    and next_dst: "dst + k \<le> 492"
    and loop: "\<And>col dst outmsg. dst \<le> 492 \<Longrightarrow> length outmsg = MAXLINE \<Longrightarrow>
       \<exists>dst' out'. expand_loop blinking lcdrow lcdcol row src col dst outmsg = Inr (dst', out')
         \<and> dst' \<le> 492 \<and> length out' = MAXLINE"
  shows "\<exists>dst' out'.
     (case strcpy dst s outmsg of
        Inl e \<Rightarrow> Inl e
      | Inr mid \<Rightarrow> expand_loop blinking lcdrow lcdcol row src col' (dst + k) mid) = Inr (dst', out')
     \<and> dst' \<le> 492 \<and> length out' = MAXLINE"
proof -
  from strcpy_in_bounds [OF fits] obtain mid
    where m: "strcpy dst s outmsg = Inr mid" and lm: "length mid = MAXLINE"
    using len by auto
  from loop [OF next_dst lm, of col'] m show ?thesis by simp
qed

lemma expand_loop_in_bounds:
  "dst \<le> 492 \<Longrightarrow> length outmsg = MAXLINE \<Longrightarrow>
   \<exists>dst' out'. expand_loop blinking lcdrow lcdcol row src col dst outmsg = Inr (dst', out')
      \<and> dst' \<le> 492 \<and> length out' = MAXLINE"
proof (induction src arbitrary: col dst outmsg)
  case Nil
  then show ?case by simp
next
  case (Cons c src)
  note len = \<open>length outmsg = MAXLINE\<close>
  show ?case
  proof (cases "c \<noteq> NUL \<and> dst < MAXLINE - 15")
    case False
    with Cons.prems show ?thesis by auto
  next
    case True
    then have d: "dst < 485" by (simp add: MAXLINE_def)
    consider (left) "c = LEFTARROW"
      | (up) "c \<noteq> LEFTARROW" "c = UPARROW"
      | (right) "c \<noteq> LEFTARROW" "c \<noteq> UPARROW" "c = RIGHTARROW"
      | (down) "c \<noteq> LEFTARROW" "c \<noteq> UPARROW" "c \<noteq> RIGHTARROW" "c = DOWNARROW"
      | (blank) "c \<noteq> LEFTARROW" "c \<noteq> UPARROW" "c \<noteq> RIGHTARROW" "c \<noteq> DOWNARROW"
          "c = CHR '' ''"
      | (cursor) "c \<noteq> LEFTARROW" "c \<noteq> UPARROW" "c \<noteq> RIGHTARROW" "c \<noteq> DOWNARROW"
          "c \<noteq> CHR '' ''" "blinking \<and> row = lcdrow \<and> col = lcdcol"
      | (plain) "c \<noteq> LEFTARROW" "c \<noteq> UPARROW" "c \<noteq> RIGHTARROW" "c \<noteq> DOWNARROW"
          "c \<noteq> CHR '' ''" "\<not> (blinking \<and> row = lcdrow \<and> col = lcdcol)"
      by blast
    then show ?thesis
    proof cases
      case left
      have l: "length HTML_LEFTARROW = 7" by (simp add: HTML_LEFTARROW_def)
      have eq: "expand_loop blinking lcdrow lcdcol row (c # src) col dst outmsg =
          (case strcpy dst HTML_LEFTARROW outmsg of
             Inl e \<Rightarrow> Inl e
           | Inr mid \<Rightarrow> expand_loop blinking lcdrow lcdcol row src (col + 1)
               (dst + length HTML_LEFTARROW) mid)"
        using True left by simp
      show ?thesis unfolding eq
        by (rule copy_then_loop_in_bounds [OF _ len _ Cons.IH]) (use d len l in \<open>simp_all add: MAXLINE_def\<close>)
    next
      case up
      have l: "length HTML_UPARROW = 7" by (simp add: HTML_UPARROW_def)
      have eq: "expand_loop blinking lcdrow lcdcol row (c # src) col dst outmsg =
          (case strcpy dst HTML_UPARROW outmsg of
             Inl e \<Rightarrow> Inl e
           | Inr mid \<Rightarrow> expand_loop blinking lcdrow lcdcol row src (col + 1)
               (dst + length HTML_UPARROW) mid)"
        using True up by simp
      show ?thesis unfolding eq
        by (rule copy_then_loop_in_bounds [OF _ len _ Cons.IH]) (use d len l in \<open>simp_all add: MAXLINE_def\<close>)
    next
      case right
      have l: "length HTML_RIGHTARROW = 7" by (simp add: HTML_RIGHTARROW_def)
      have eq: "expand_loop blinking lcdrow lcdcol row (c # src) col dst outmsg =
          (case strcpy dst HTML_RIGHTARROW outmsg of
             Inl e \<Rightarrow> Inl e
           | Inr mid \<Rightarrow> expand_loop blinking lcdrow lcdcol row src (col + 1)
               (dst + length HTML_RIGHTARROW) mid)"
        using True right by simp
      show ?thesis unfolding eq
        by (rule copy_then_loop_in_bounds [OF _ len _ Cons.IH]) (use d len l in \<open>simp_all add: MAXLINE_def\<close>)
    next
      case down
      have l: "length HTML_DOWNARROW = 7" by (simp add: HTML_DOWNARROW_def)
      have eq: "expand_loop blinking lcdrow lcdcol row (c # src) col dst outmsg =
          (case strcpy dst HTML_DOWNARROW outmsg of
             Inl e \<Rightarrow> Inl e
           | Inr mid \<Rightarrow> expand_loop blinking lcdrow lcdcol row src (col + 1)
               (dst + length HTML_DOWNARROW) mid)"
        using True down by simp
      show ?thesis unfolding eq
        by (rule copy_then_loop_in_bounds [OF _ len _ Cons.IH]) (use d len l in \<open>simp_all add: MAXLINE_def\<close>)
    next
      case blank
      have eq: "expand_loop blinking lcdrow lcdcol row (c # src) col dst outmsg =
          (case strcpy dst ''&nbsp;'' outmsg of
             Inl e \<Rightarrow> Inl e
           | Inr mid \<Rightarrow> expand_loop blinking lcdrow lcdcol row src (col + 1) (dst + 6) mid)"
        using True blank by (simp del: strcpy.simps)
      show ?thesis unfolding eq
        by (rule copy_then_loop_in_bounds [OF _ len _ Cons.IH]) (use d len in \<open>simp_all add: MAXLINE_def\<close>)
    next
      case cursor
      have eq: "expand_loop blinking lcdrow lcdcol row (c # src) col dst outmsg =
          (case strcpy dst (''<u>'' @ [c] @ ''</u>'') outmsg of
             Inl e \<Rightarrow> Inl e
           | Inr mid \<Rightarrow> expand_loop blinking lcdrow lcdcol row src (col + 1)
               (dst + length (''<u>'' @ [c] @ ''</u>'')) mid)"
        using True cursor by (simp del: strcpy.simps cong: sum.case_cong)
      show ?thesis unfolding eq
        by (rule copy_then_loop_in_bounds [OF _ len _ Cons.IH]) (use d len in \<open>simp_all add: MAXLINE_def\<close>)
    next
      case plain
      have p: "poke dst c outmsg = Inr (outmsg[dst := c])"
        using d Cons.prems by (simp add: poke_def MAXLINE_def)
      have n: "Suc dst \<le> 492" using d by simp
      have l: "length (outmsg[dst := c]) = MAXLINE" using Cons.prems by simp
      have eq: "expand_loop blinking lcdrow lcdcol row (c # src) col dst outmsg =
          (case poke dst c outmsg of
             Inl e \<Rightarrow> Inl e
           | Inr mid \<Rightarrow> expand_loop blinking lcdrow lcdcol row src (col + 1) (Suc dst) mid)"
        using True plain by (auto simp del: strcpy.simps)
      from Cons.IH [OF n l, of "col + 1"] show ?thesis unfolding eq p by simp
    qed
  qed
qed

text \<open>
  Claim C10. \<^verbatim>\<open>expand_arrows_and_blanks\<close> never stores outside its buffer of
  \<open>MAXLINE\<close> bytes: for every content of the LCD row (of any length), every row
  number, every cursor position and either value of the blink flag, the function runs to
  its end without a store out of bounds. The loop is entered only below offset 485, one
  character moves the offset by at most 8 and stores at most 9 bytes, so the offset never
  passes 492, and the 6 bytes of the line break end at offset 497 at most.
\<close>

theorem expand_arrows_and_blanks_in_bounds:
  "length outmsg = MAXLINE \<Longrightarrow>
   \<exists>chunk. expand_arrows_and_blanks blinking lcdrow lcdcol row src outmsg = Inr chunk"
proof -
  assume len: "length outmsg = MAXLINE"
  have "(0 :: nat) \<le> 492" by simp
  from expand_loop_in_bounds [OF this len]
  obtain dst out' where
    l: "expand_loop blinking lcdrow lcdcol row src 0 0 outmsg = Inr (dst, out')"
    and d: "dst \<le> 492" and lo: "length out' = MAXLINE"
    by blast
  have "dst + length (''<br>'' @ [CHR 0x0A]) < length out'"
    using d lo by (simp add: MAXLINE_def)
  from strcpy_in_bounds [OF this] obtain out''
    where "strcpy dst (''<br>'' @ [CHR 0x0A]) out' = Inr out''" by blast
  with l show ?thesis by (simp add: expand_arrows_and_blanks_def)
qed

theorem expand_arrows_and_blanks_in_bounds_witness:
  "length (replicate 500 (CHR ''.'')) = MAXLINE \<and>
   expand_arrows_and_blanks True 0 0 0 lcd_row_sample (replicate 500 (CHR ''.'')) =
     Inr (''<u>a</u>&nbsp;b&#8592;<br>'' @ [CHR 0x0A])"
proof -
  have len: "length (replicate 500 (CHR ''.'')) = MAXLINE" by (simp add: MAXLINE_def)
  from expand_arrows_and_blanks_in_bounds [OF len, of True 0 0 0 lcd_row_sample]
  obtain chunk where
    c: "expand_arrows_and_blanks True 0 0 0 lcd_row_sample (replicate 500 (CHR ''.'')) = Inr chunk"
    by blast
  have "expand_arrows_and_blanks True 0 0 0 lcd_row_sample (replicate 500 (CHR ''.'')) =
     Inr (''<u>a</u>&nbsp;b&#8592;<br>'' @ [CHR 0x0A])"
    by code_simp
  with len show ?thesis by simp
qed

subsection \<open>Buttons pushed from the browser\<close>

lemma sscanf_button_temp:
  "sscanf_button ''temp=up'' = None" "sscanf_button ''temp=down'' = None"
  by (simp_all add: sscanf_button_def)

lemma dispatch_button:
  "post_dispatch n pd = Got_Button b \<longleftrightarrow> sscanf_button pd = Some b \<and> 0 \<le> b \<and> b \<le> 7"
  by (auto simp: post_dispatch_def Let_def split: option.splits)

lemma dispatch_up: "post_dispatch n pd = Got_Temp_Up \<longleftrightarrow> pd = ''temp=up''"
  by (auto simp: post_dispatch_def Let_def sscanf_button_temp split: option.splits)

lemma dispatch_down: "post_dispatch n pd = Got_Temp_Down \<longleftrightarrow> pd = ''temp=down''"
  by (auto simp: post_dispatch_def Let_def sscanf_button_temp split: option.splits)

lemma dispatch_other:
  "post_dispatch n pd = Unexpected m s \<longleftrightarrow>
     m = n \<and> s = pd \<and> pd \<noteq> ''temp=up'' \<and> pd \<noteq> ''temp=down'' \<and>
     (\<forall>b. sscanf_button pd = Some b \<longrightarrow> b < 0 \<or> 7 < b)"
  by (auto simp: post_dispatch_def Let_def sscanf_button_temp split: option.splits)

lemma form_button_scans:
  "but < 8 \<Longrightarrow> sscanf_button (''button='' @ [char_of (48 + but)]) = Some (int but)"
proof -
  have "\<forall>but\<in>set [0..<8]. sscanf_button (''button='' @ [char_of (48 + but)]) = Some (int but)"
    by code_simp
  moreover assume "but < 8"
  ultimately show ?thesis by simp
qed

text \<open>
  The parser of the handler and the specification's reading agree: the digits have the
  same value, the literal part matches exactly the texts that start with it, and
  \<^verbatim>\<open>%d\<close> accepts exactly white space, sign and digits. The library's clamping to
  the 32-bit range cannot turn a number outside \<open>0..7\<close> into one inside.
\<close>

lemma digit_val_number: "isdigit c \<Longrightarrow> digit_val c = int (digit_number c)"
proof -
  have "\<forall>c\<in>set ''0123456789''. digit_val c = int (digit_number c)"
    by (simp add: digit_val_def digit_number_def)
  moreover assume "isdigit c"
  ultimately show ?thesis unfolding isdigit_def by blast
qed

lemma foldl_decimal:
  "\<forall>c\<in>set ds. isdigit c \<Longrightarrow>
   foldl (\<lambda>acc c. 10 * acc + digit_val c) acc ds = acc * 10 ^ length ds + int (number_of ds)"
  by (induction ds arbitrary: acc) (simp_all add: digit_val_number algebra_simps)

lemma decimal_number_of: "\<forall>c\<in>set ds. isdigit c \<Longrightarrow> decimal ds = int (number_of ds)"
  using foldl_decimal [of ds 0] by (simp add: decimal_def)

lemma match_literal_iff: "match_literal fs inp = Some rest \<longleftrightarrow> inp = fs @ rest"
  by (induction fs inp rule: match_literal.induct) auto

lemma digit_char:
  "c \<in> set ''0123456789'' \<Longrightarrow> isdigit c \<and> \<not> isspace c \<and> c \<noteq> CHR ''+'' \<and> c \<noteq> CHR ''-''"
proof -
  have "\<forall>c\<in>set ''0123456789''. isdigit c \<and> \<not> isspace c \<and> c \<noteq> CHR ''+'' \<and> c \<noteq> CHR ''-''"
    by (simp add: isdigit_def isspace_def)
  moreover assume "c \<in> set ''0123456789''"
  ultimately show ?thesis by blast
qed

lemma sign_char: "\<not> isspace CHR ''+''" "\<not> isspace CHR ''-''"
  by (simp_all add: isspace_def)

lemma scan_sign_split:
  assumes "scan_sign r = (negative, r')"
  shows "\<exists>sign. r = sign @ r' \<and> sign \<in> set [[], ''+'', ''-''] \<and> negative = (sign = ''-'')"
proof (cases r)
  case Nil
  with assms have "r = [] @ r'" "\<not> negative" by simp_all
  then show ?thesis by (intro exI [of _ "[]"]) simp
next
  case (Cons c cs)
  consider (minus) "c = CHR ''-''" | (plus) "c = CHR ''+''"
    | (none) "c \<noteq> CHR ''-''" "c \<noteq> CHR ''+''" by blast
  then show ?thesis
  proof cases
    case minus
    with Cons assms have "r = ''-'' @ r'" "negative" by simp_all
    then show ?thesis by (intro exI [of _ "''-''"]) simp
  next
    case plus
    with Cons assms have "r = ''+'' @ r'" "\<not> negative" by simp_all
    then show ?thesis by (intro exI [of _ "''+''"]) simp
  next
    case none
    with Cons assms have "r = [] @ r'" "\<not> negative" by simp_all
    then show ?thesis by (intro exI [of _ "[]"]) simp
  qed
qed

lemma scan_sign_signed:
  assumes "sign \<in> set [[], ''+'', ''-'']" "digits \<noteq> []" "set digits \<subseteq> set ''0123456789''"
  shows "scan_sign (sign @ digits @ rest) = (sign = ''-'', digits @ rest)"
proof -
  from assms(2) obtain d ds where d: "digits = d # ds" by (cases digits) auto
  with assms(3) have "d \<in> set ''0123456789''" by simp
  from digit_char [OF this] have n: "d \<noteq> CHR ''+''" "d \<noteq> CHR ''-''" by simp_all
  from assms(1) consider "sign = []" | "sign = ''+''" | "sign = ''-''" by auto
  then show ?thesis
  proof cases
    case 1
    with d n show ?thesis by simp
  next
    case 2
    then show ?thesis by simp
  next
    case 3
    then show ?thesis by simp
  qed
qed

lemma skip_blanks:
  assumes "set blanks \<subseteq> set [CHR '' '', CHR 0x09, CHR 0x0A, CHR 0x0B, CHR 0x0C, CHR 0x0D]"
    and "\<not> isspace x"
  shows "dropWhile isspace (blanks @ x # xs) = x # xs"
proof -
  have "isspace c" if "c \<in> set blanks" for c
    using that assms(1) unfolding isspace_def by blast
  then have "dropWhile isspace (blanks @ x # xs) = dropWhile isspace (x # xs)"
    by (rule dropWhile_append2)
  with assms(2) show ?thesis by simp
qed

lemma take_digits:
  assumes "set digits \<subseteq> set ''0123456789''"
    and "(rest = [] \<or> hd rest \<notin> set ''0123456789'')"
  shows "takeWhile isdigit (digits @ rest) = digits"
proof -
  have "takeWhile isdigit rest = []"
  proof (cases rest)
    case Nil
    then show ?thesis by simp
  next
    case (Cons x xs)
    with assms(2) have "hd (x # xs) \<notin> set ''0123456789''" by blast
    then have "x \<notin> set ''0123456789''" unfolding list.sel .
    then have "\<not> isdigit x" unfolding isdigit_def .
    with Cons show ?thesis by simp
  qed
  moreover have "isdigit c" if "c \<in> set digits" for c
    using that assms(1) unfolding isdigit_def by blast
  then have "takeWhile isdigit (digits @ rest) = digits @ takeWhile isdigit rest"
    by (rule takeWhile_append2)
  ultimately show ?thesis by simp
qed

lemma scan_int_text:
  assumes "set blanks \<subseteq> set [CHR '' '', CHR 0x09, CHR 0x0A, CHR 0x0B, CHR 0x0C, CHR 0x0D]"
    and "sign \<in> set [[], ''+'', ''-'']"
    and "digits \<noteq> []" and "set digits \<subseteq> set ''0123456789''"
    and "(rest = [] \<or> hd rest \<notin> set ''0123456789'')"
  shows "scan_int (blanks @ sign @ digits @ rest) =
     Some (strtol_clamp (if sign = ''-'' then - int (number_of digits) else int (number_of digits)))"
proof -
  have d: "\<forall>c\<in>set digits. isdigit c"
    using assms(4) unfolding isdigit_def by blast
  from assms(3) obtain y ys where y: "digits = y # ys" by (cases digits) auto
  with assms(4) have "y \<in> set ''0123456789''" by simp
  from digit_char [OF this] have ny: "\<not> isspace y" by simp
  from assms(2) consider "sign = []" | "sign = ''+''" | "sign = ''-''" by auto
  then have skip: "dropWhile isspace (blanks @ sign @ digits @ rest) = sign @ digits @ rest"
  proof cases
    case 1
    with skip_blanks [OF assms(1) ny, of "ys @ rest"] y show ?thesis by simp
  next
    case 2
    with skip_blanks [OF assms(1) sign_char(1), of "digits @ rest"] show ?thesis by simp
  next
    case 3
    with skip_blanks [OF assms(1) sign_char(2), of "digits @ rest"] show ?thesis by simp
  qed
  note digs = take_digits [OF assms(4,5)]
  note sg = scan_sign_signed [OF assms(2,3,4), of rest]
  have "scan_int (blanks @ sign @ digits @ rest) =
      Some (strtol_clamp (if sign = ''-'' then - decimal digits else decimal digits))"
    unfolding scan_int_def skip sg using assms(3) by (simp add: digs)
  with decimal_number_of [OF d] show ?thesis by simp
qed

lemma scan_int_split:
  assumes "scan_int r = Some v"
  shows "\<exists>blanks sign digits rest.
        r = blanks @ sign @ digits @ rest \<and>
        set blanks \<subseteq> set [CHR '' '', CHR 0x09, CHR 0x0A, CHR 0x0B, CHR 0x0C, CHR 0x0D] \<and>
        sign \<in> set [[], ''+'', ''-''] \<and>
        digits \<noteq> [] \<and> set digits \<subseteq> set ''0123456789'' \<and>
        (rest = [] \<or> hd rest \<notin> set ''0123456789'') \<and>
        v = strtol_clamp (if sign = ''-'' then - int (number_of digits) else int (number_of digits))"
proof -
  define blanks where "blanks = takeWhile isspace r"
  obtain negative r' where s: "scan_sign (dropWhile isspace r) = (negative, r')"
    by (cases "scan_sign (dropWhile isspace r)")
  define digits where "digits = takeWhile isdigit r'"
  define rest where "rest = dropWhile isdigit r'"
  from scan_sign_split [OF s] obtain sign where sign: "dropWhile isspace r = sign @ r'"
    "sign \<in> set [[], ''+'', ''-'']" "negative = (sign = ''-'')" by blast
  have r: "r = blanks @ sign @ digits @ rest"
    using sign(1) takeWhile_dropWhile_id [of isspace r] takeWhile_dropWhile_id [of isdigit r']
    by (simp add: blanks_def digits_def rest_def)
  have bl: "set blanks \<subseteq> set [CHR '' '', CHR 0x09, CHR 0x0A, CHR 0x0B, CHR 0x0C, CHR 0x0D]"
  proof
    fix c assume "c \<in> set blanks"
    then have "isspace c" unfolding blanks_def by (rule set_takeWhileD [THEN conjunct2])
    then show "c \<in> set [CHR '' '', CHR 0x09, CHR 0x0A, CHR 0x0B, CHR 0x0C, CHR 0x0D]"
      unfolding isspace_def .
  qed
  have d: "\<forall>c\<in>set digits. isdigit c"
    unfolding digits_def using set_takeWhileD by fast
  then have dg: "set digits \<subseteq> set ''0123456789''"
    unfolding isdigit_def by blast
  have rs: "(rest = [] \<or> hd rest \<notin> set ''0123456789'')"
  proof (cases "rest = []")
    case True
    then show ?thesis by blast
  next
    case False
    then have "dropWhile isdigit r' \<noteq> []" unfolding rest_def .
    from hd_dropWhile [OF this] have "\<not> isdigit (hd rest)" unfolding rest_def .
    then have "hd rest \<notin> set ''0123456789''" unfolding isdigit_def .
    then show ?thesis by blast
  qed
  from assms s have ne: "digits \<noteq> []"
    and v: "v = strtol_clamp (if negative then - decimal digits else decimal digits)"
    by (auto simp: scan_int_def digits_def Let_def split: if_splits)
  from v sign(3) decimal_number_of [OF d]
  have "v = strtol_clamp (if sign = ''-'' then - int (number_of digits) else int (number_of digits))"
    by simp
  with r bl sign(2) ne dg rs show ?thesis by blast
qed

lemma strtol_clamp_button: "0 \<le> b \<Longrightarrow> b \<le> 7 \<Longrightarrow> strtol_clamp v = b \<longleftrightarrow> v = b"
  by (auto simp: strtol_clamp_def LONG_MAX_def LONG_MIN_def)

lemma sscanf_button_spec:
  assumes "0 \<le> b" "b \<le> 7"
  shows "sscanf_button postdata = Some b \<longleftrightarrow> spec_parses_as_button postdata b"
proof
  assume "sscanf_button postdata = Some b"
  then obtain r where m: "match_literal ''button='' postdata = Some r" and s: "scan_int r = Some b"
    by (auto simp: sscanf_button_def split: option.splits)
  from m have p: "postdata = ''button='' @ r" by (simp only: match_literal_iff)
  from scan_int_split [OF s] obtain blanks sign digits rest where
    f: "r = blanks @ sign @ digits @ rest"
       "set blanks \<subseteq> set [CHR '' '', CHR 0x09, CHR 0x0A, CHR 0x0B, CHR 0x0C, CHR 0x0D]"
       "sign \<in> set [[], ''+'', ''-'']" "digits \<noteq> []" "set digits \<subseteq> set ''0123456789''"
       "(rest = [] \<or> hd rest \<notin> set ''0123456789'')"
    and v: "b = strtol_clamp (if sign = ''-'' then - int (number_of digits) else int (number_of digits))"
    by blast
  define n where "n = (if sign = ''-'' then - int (number_of digits) else int (number_of digits))"
  from v have "strtol_clamp n = b" by (simp only: n_def)
  with strtol_clamp_button [OF assms, of n] have "n = b" by blast
  then have "b = (if sign = ''-'' then - int (number_of digits) else int (number_of digits))"
    by (simp only: n_def)
  moreover from p f(1) have "postdata = ''button='' @ blanks @ sign @ digits @ rest" by (simp only:)
  ultimately show "spec_parses_as_button postdata b"
    unfolding spec_parses_as_button_def using f(2-6) by blast
next
  assume "spec_parses_as_button postdata b"
  then obtain blanks sign digits rest where
    f: "postdata = ''button='' @ blanks @ sign @ digits @ rest"
       "set blanks \<subseteq> set [CHR '' '', CHR 0x09, CHR 0x0A, CHR 0x0B, CHR 0x0C, CHR 0x0D]"
       "sign \<in> set [[], ''+'', ''-'']" "digits \<noteq> []" "set digits \<subseteq> set ''0123456789''"
       "(rest = [] \<or> hd rest \<notin> set ''0123456789'')"
    and v: "b = (if sign = ''-'' then - int (number_of digits) else int (number_of digits))"
    unfolding spec_parses_as_button_def by blast
  have m: "match_literal ''button='' postdata = Some (blanks @ sign @ digits @ rest)"
    unfolding f(1) by (simp only: match_literal_iff)
  from strtol_clamp_button [OF assms, of b] have c: "strtol_clamp b = b" by simp
  from scan_int_text [OF f(2-6)] v c
  have "scan_int (blanks @ sign @ digits @ rest) = Some b" by (simp only:)
  with m show "sscanf_button postdata = Some b" by (simp only: sscanf_button_def option.case)
qed

lemma in_range_parse:
  "(sscanf_button postdata = Some b \<and> 0 \<le> b \<and> b \<le> 7) \<longleftrightarrow>
   (spec_parses_as_button postdata b \<and> 0 \<le> b \<and> b \<le> 7)"
  using sscanf_button_spec by blast

lemma out_of_range_parse:
  "(\<forall>b. sscanf_button postdata = Some b \<longrightarrow> b < 0 \<or> 7 < b) \<longleftrightarrow>
   (\<forall>b. spec_parses_as_button postdata b \<longrightarrow> b < 0 \<or> 7 < b)"
proof -
  have range: "(X \<longrightarrow> b < 0 \<or> 7 < b) \<longleftrightarrow> \<not> (X \<and> 0 \<le> b \<and> b \<le> 7)" for X and b :: int
    by auto
  show ?thesis by (simp only: range in_range_parse)
qed

text \<open>
  The handler's \<^verbatim>\<open>postdata\<close> is the part of the received bytes before the first
  \<open>NUL\<close>. When \<^verbatim>\<open>httpd_req_recv\<close> fails, its negative result is used as the
  index of the final \<open>NUL\<close> and the store is outside \<^verbatim>\<open>postdata\<close>.
\<close>

lemma c_string_split:
  "\<exists>tail. mem = c_string mem @ tail \<and> NUL \<notin> set (c_string mem) \<and> (tail = [] \<or> hd tail = NUL)"
proof (intro exI [of _ "dropWhile (\<lambda>c. c \<noteq> NUL) mem"] conjI)
  show "mem = c_string mem @ dropWhile (\<lambda>c. c \<noteq> NUL) mem"
    by (simp add: c_string_def)
  show "NUL \<notin> set (c_string mem)"
    using set_takeWhileD [of NUL "\<lambda>c. c \<noteq> NUL" mem] by (auto simp: c_string_def)
  show "dropWhile (\<lambda>c. c \<noteq> NUL) mem = [] \<or> hd (dropWhile (\<lambda>c. c \<noteq> NUL) mem) = NUL"
    using hd_dropWhile [of "\<lambda>c. c \<noteq> NUL" mem] by blast
qed

lemma button_POST_handler_recv_failed:
  "button_POST_handler (Recv_Failed datalen) st = Inl (Store_Out_Of_Bounds datalen)"
  by (simp add: button_POST_handler_def)

text \<open>
  Claim C8 as the specification states it, for every POST body, fails at two bodies. The
  body \<^verbatim>\<open>button=0000000000000000012\<close> has 26 bytes and parses as \<^verbatim>\<open>button=12\<close>,
  a number out of range; the handler reads 24 bytes, finds seventeen zeros and pushes
  button 0. The body \<^verbatim>\<open>temp=up\<close>, \<open>NUL\<close>, \<^verbatim>\<open>button=9\<close> is not
  \<^verbatim>\<open>temp=up\<close>; the handler stops reading at the \<open>NUL\<close> and calls
  \<^verbatim>\<open>temp_change(+1)\<close>.
\<close>

theorem button_POST_handler_long_body:
  "spec_parses_as_button ''button=0000000000000000012'' 12 \<and>
   sscanf_button ''button=0000000000000000012'' = Some 12 \<and>
   button_POST_handler (Received ''button=0000000000000000012'')
     \<lparr>button_webpushed = replicate 8 False, temp_change_calls = [], dprint_log = []\<rparr> =
   Inr \<lparr>button_webpushed = [True, False, False, False, False, False, False, False],
        temp_change_calls = [], dprint_log = [Got_Button 0]\<rparr> \<and>
   ''temp=up'' @ [NUL] @ ''button=9'' \<noteq> ''temp=up'' \<and>
   button_POST_handler (Received (''temp=up'' @ [NUL] @ ''button=9''))
     \<lparr>button_webpushed = replicate 8 False, temp_change_calls = [], dprint_log = []\<rparr> =
   Inr \<lparr>button_webpushed = replicate 8 False, temp_change_calls = [1], dprint_log = [Got_Temp_Up]\<rparr>"
proof (intro conjI)
  have "number_of ''0000000000000000012'' = 12"
    by (simp add: digit_number_def)
  then have "''button=0000000000000000012'' = ''button='' @ [] @ [] @ ''0000000000000000012'' @ [] \<and>
      set [] \<subseteq> set [CHR '' '', CHR 0x09, CHR 0x0A, CHR 0x0B, CHR 0x0C, CHR 0x0D] \<and>
      [] \<in> set [[], ''+'', ''-''] \<and>
      ''0000000000000000012'' \<noteq> [] \<and> set ''0000000000000000012'' \<subseteq> set ''0123456789'' \<and>
      ([] = [] \<or> hd [] \<notin> set ''0123456789'') \<and>
      (12 :: int) = (if [] = ''-'' then - int (number_of ''0000000000000000012'')
                     else int (number_of ''0000000000000000012''))"
    by simp
  then show "spec_parses_as_button ''button=0000000000000000012'' 12"
    unfolding spec_parses_as_button_def by blast
next
  show "sscanf_button ''button=0000000000000000012'' = Some 12"
    by (simp add: sscanf_button_def scan_int_def isspace_def isdigit_def
        decimal_def digit_val_def strtol_clamp_def LONG_MAX_def LONG_MIN_def)
next
  have "sscanf_button ''button=00000000000000000'' = Some 0"
    by (simp add: sscanf_button_def scan_int_def isspace_def isdigit_def
        decimal_def digit_val_def strtol_clamp_def LONG_MAX_def LONG_MIN_def)
  then show "button_POST_handler (Received ''button=0000000000000000012'')
     \<lparr>button_webpushed = replicate 8 False, temp_change_calls = [], dprint_log = []\<rparr> =
   Inr \<lparr>button_webpushed = [True, False, False, False, False, False, False, False],
        temp_change_calls = [], dprint_log = [Got_Button 0]\<rparr>"
    by (simp add: button_POST_handler_def c_string_def NUL_def post_dispatch_def numeral_eq_Suc)
next
  show "''temp=up'' @ [NUL] @ ''button=9'' \<noteq> ''temp=up''"
    by simp
next
  show "button_POST_handler (Received (''temp=up'' @ [NUL] @ ''button=9''))
     \<lparr>button_webpushed = replicate 8 False, temp_change_calls = [], dprint_log = []\<rparr> =
   Inr \<lparr>button_webpushed = replicate 8 False, temp_change_calls = [1], dprint_log = [Got_Temp_Up]\<rparr>"
    by (simp add: button_POST_handler_def c_string_def NUL_def post_dispatch_def sscanf_button_temp)
qed

text \<open>
  Claim C8, amended. For every body the handler receives, with \<open>postdata\<close> its first
  24 bytes cut at the first \<open>NUL\<close>: the handler sets \<^verbatim>\<open>button_webpushed[b]\<close> (and
  prints the line for button \<open>b\<close>) if and only if \<open>postdata\<close> parses as
  \<^verbatim>\<open>button=\<close>\<open>b\<close> with \<open>0 \<le> b \<le> 7\<close>, and then changes nothing else; an entry
  of the array that was false becomes true exactly for that \<open>b\<close>; it calls
  \<^verbatim>\<open>temp_change(+1)\<close> exactly when \<open>postdata\<close> is \<^verbatim>\<open>temp=up\<close> and
  \<^verbatim>\<open>temp_change(-1)\<close> exactly when it is \<^verbatim>\<open>temp=down\<close>; for any other
  \<open>postdata\<close>, a button number out of range included, it leaves the array and the
  setpoint alone and only prints the line for unexpected bytes. Each of the eight bodies
  the page's own form sends, \<^verbatim>\<open>button=0\<close> to \<^verbatim>\<open>button=7\<close>, pushes its button. A
  body of at most 24 bytes without a \<open>NUL\<close> is its own \<open>postdata\<close>; in general
  \<open>postdata\<close> has no \<open>NUL\<close> and is followed in the first 24 bytes by nothing or by a
  \<open>NUL\<close>.
\<close>

theorem button_POST_handler_mirrors:
  "\<exists>st'. button_POST_handler (Received body) st = Inr st' \<and>
     (\<forall>b. (spec_parses_as_button (c_string (take 24 body)) b \<and> 0 \<le> b \<and> b \<le> 7) \<longleftrightarrow>
          dprint_log st' = dprint_log st @ [Got_Button b]) \<and>
     (\<forall>b. spec_parses_as_button (c_string (take 24 body)) b \<and> 0 \<le> b \<and> b \<le> 7 \<longrightarrow>
          nat b < NUM_BUTTONS \<and>
          button_webpushed st' = (button_webpushed st)[nat b := True] \<and>
          temp_change_calls st' = temp_change_calls st) \<and>
     (\<forall>b. 0 \<le> b \<and> b \<le> 7 \<and> length (button_webpushed st) = NUM_BUTTONS \<and>
          \<not> button_webpushed st ! nat b \<longrightarrow>
          (button_webpushed st' ! nat b \<longleftrightarrow> spec_parses_as_button (c_string (take 24 body)) b)) \<and>
     ((\<forall>b. spec_parses_as_button (c_string (take 24 body)) b \<longrightarrow> b < 0 \<or> 7 < b) \<longrightarrow>
          button_webpushed st' = button_webpushed st) \<and>
     (c_string (take 24 body) = ''temp=up'' \<longleftrightarrow>
          temp_change_calls st' = temp_change_calls st @ [1]) \<and>
     (c_string (take 24 body) = ''temp=down'' \<longleftrightarrow>
          temp_change_calls st' = temp_change_calls st @ [- 1]) \<and>
     (c_string (take 24 body) \<noteq> ''temp=up'' \<and> c_string (take 24 body) \<noteq> ''temp=down'' \<longrightarrow>
          temp_change_calls st' = temp_change_calls st) \<and>
     ((\<forall>b. spec_parses_as_button (c_string (take 24 body)) b \<longrightarrow> b < 0 \<or> 7 < b) \<and>
      c_string (take 24 body) \<noteq> ''temp=up'' \<and> c_string (take 24 body) \<noteq> ''temp=down'' \<longrightarrow>
          st' = st\<lparr>dprint_log := dprint_log st @
                  [Unexpected (length (take 24 body)) (c_string (take 24 body))]\<rparr>) \<and>
     (\<forall>but<NUM_BUTTONS.
          post_dispatch 8 (''button='' @ [char_of (48 + but)]) = Got_Button (int but)) \<and>
     (NUL \<notin> set body \<and> length body \<le> 24 \<longrightarrow> c_string (take 24 body) = body) \<and>
     (\<exists>tail. take 24 body = c_string (take 24 body) @ tail \<and>
          NUL \<notin> set (c_string (take 24 body)) \<and> (tail = [] \<or> hd tail = NUL))"
proof -
  define pd where "pd = c_string (take 24 body)"
  define n where "n = length (take 24 body)"
  define act where "act = post_dispatch n pd"
  define st' where "st' = perform act st"
  have run: "button_POST_handler (Received body) st = Inr st'"
    by (simp add: button_POST_handler_def Let_def st'_def act_def pd_def n_def)
  have up: "sscanf_button ''temp=up'' = None" and down: "sscanf_button ''temp=down'' = None"
    by (rule sscanf_button_temp)+
  consider (button) b where "sscanf_button pd = Some b" "0 \<le> b" "b \<le> 7" "act = Got_Button b"
    | (up) "pd = ''temp=up''" "act = Got_Temp_Up"
    | (down) "pd = ''temp=down''" "act = Got_Temp_Down"
    | (other) "\<forall>b. sscanf_button pd = Some b \<longrightarrow> b < 0 \<or> 7 < b"
        "pd \<noteq> ''temp=up''" "pd \<noteq> ''temp=down''" "act = Unexpected n pd"
  proof (cases act)
    case (Got_Button b)
    with dispatch_button [of n pd b] that(1) [of b] show ?thesis by (simp add: act_def)
  next
    case Got_Temp_Up
    with dispatch_up [of n pd] that(2) show ?thesis by (simp add: act_def)
  next
    case Got_Temp_Down
    with dispatch_down [of n pd] that(3) show ?thesis by (simp add: act_def)
  next
    case (Unexpected m s)
    with dispatch_other [of n pd m s] that(4) show ?thesis by (simp add: act_def)
  qed
  note cases4 = this
  from cases4 have facts:
     "(\<forall>b. (sscanf_button pd = Some b \<and> 0 \<le> b \<and> b \<le> 7) \<longleftrightarrow>
          dprint_log st' = dprint_log st @ [Got_Button b]) \<and>
     (\<forall>b. sscanf_button pd = Some b \<and> 0 \<le> b \<and> b \<le> 7 \<longrightarrow>
          nat b < NUM_BUTTONS \<and>
          button_webpushed st' = (button_webpushed st)[nat b := True] \<and>
          temp_change_calls st' = temp_change_calls st) \<and>
     ((\<forall>b. sscanf_button pd = Some b \<longrightarrow> b < 0 \<or> 7 < b) \<longrightarrow>
          button_webpushed st' = button_webpushed st) \<and>
     (pd = ''temp=up'' \<longleftrightarrow> temp_change_calls st' = temp_change_calls st @ [1]) \<and>
     (pd = ''temp=down'' \<longleftrightarrow> temp_change_calls st' = temp_change_calls st @ [- 1]) \<and>
     (pd \<noteq> ''temp=up'' \<and> pd \<noteq> ''temp=down'' \<longrightarrow>
          temp_change_calls st' = temp_change_calls st) \<and>
     ((\<forall>b. sscanf_button pd = Some b \<longrightarrow> b < 0 \<or> 7 < b) \<and>
      pd \<noteq> ''temp=up'' \<and> pd \<noteq> ''temp=down'' \<longrightarrow>
          st' = st\<lparr>dprint_log := dprint_log st @ [Unexpected n pd]\<rparr>)"
  proof cases
    case button
    then show ?thesis
      by (auto simp: st'_def NUM_BUTTONS_def up down)
  next
    case up
    then show ?thesis by (auto simp: st'_def sscanf_button_temp)
  next
    case down
    then show ?thesis by (auto simp: st'_def sscanf_button_temp)
  next
    case other
    then show ?thesis by (auto simp: st'_def)
  qed
  have entry: "button_webpushed st' ! nat b \<longleftrightarrow> sscanf_button pd = Some b"
    if b: "0 \<le> b" "b \<le> 7" and len: "length (button_webpushed st) = NUM_BUTTONS"
      and off: "\<not> button_webpushed st ! nat b" for b
    using cases4
  proof cases
    case (button b')
    from b len have lt: "nat b < length (button_webpushed st)" by (simp add: NUM_BUTTONS_def)
    have "button_webpushed st' ! nat b \<longleftrightarrow> b' = b"
    proof (cases "b' = b")
      case True
      with lt button(4) show ?thesis by (simp add: st'_def)
    next
      case False
      with b button(2) have "nat b' \<noteq> nat b" by auto
      with False off button(4) show ?thesis by (simp add: st'_def)
    qed
    with button(1) show ?thesis by auto
  next
    case up
    with off b show ?thesis by (auto simp: st'_def sscanf_button_temp)
  next
    case down
    with off b show ?thesis by (auto simp: st'_def sscanf_button_temp)
  next
    case other
    from other(1) b have "sscanf_button pd \<noteq> Some b" by auto
    with off other(4) show ?thesis by (simp add: st'_def)
  qed
  have pushed: "\<forall>b. 0 \<le> b \<and> b \<le> 7 \<and> length (button_webpushed st) = NUM_BUTTONS \<and>
          \<not> button_webpushed st ! nat b \<longrightarrow>
          (button_webpushed st' ! nat b \<longleftrightarrow> spec_parses_as_button pd b)"
    using entry sscanf_button_spec [of _ pd] by blast
  have form: "\<forall>but<NUM_BUTTONS.
      post_dispatch 8 (''button='' @ [char_of (48 + but)]) = Got_Button (int but)"
    using form_button_scans by (simp add: post_dispatch_def NUM_BUTTONS_def)
  have plain: "NUL \<notin> set body \<and> length body \<le> 24 \<longrightarrow> pd = body"
    by (auto simp: c_string_def pd_def)
  have split: "\<exists>tail. take 24 body = pd @ tail \<and> NUL \<notin> set pd \<and> (tail = [] \<or> hd tail = NUL)"
    unfolding pd_def by (rule c_string_split)
  note spec_facts = facts [unfolded in_range_parse out_of_range_parse]
  note logged = spec_facts [THEN conjunct1]
  note effect = spec_facts [THEN conjunct2, THEN conjunct1]
  note kept = spec_facts [THEN conjunct2, THEN conjunct2, THEN conjunct1]
  note temp_up = spec_facts [THEN conjunct2, THEN conjunct2, THEN conjunct2, THEN conjunct1]
  note temp_down = spec_facts [THEN conjunct2, THEN conjunct2, THEN conjunct2, THEN conjunct2,
      THEN conjunct1]
  note temp_kept = spec_facts [THEN conjunct2, THEN conjunct2, THEN conjunct2, THEN conjunct2,
      THEN conjunct2, THEN conjunct1]
  note only_logged = spec_facts [THEN conjunct2, THEN conjunct2, THEN conjunct2, THEN conjunct2,
      THEN conjunct2, THEN conjunct2]
  show ?thesis
    unfolding pd_def [symmetric] n_def [symmetric]
  proof (intro exI [of _ st'] conjI)
    show "button_POST_handler (Received body) st = Inr st'"
      by (rule run)
  qed (fact logged effect pushed kept temp_up temp_down temp_kept only_logged form plain split)+
qed

theorem button_POST_handler_mirrors_witness:
  "spec_parses_as_button (c_string (take 24 ''button=3'')) 3 \<and> (0 :: int) \<le> 3 \<and> (3 :: int) \<le> 7 \<and>
   button_POST_handler (Received ''button=3'')
     \<lparr>button_webpushed = replicate 8 False, temp_change_calls = [], dprint_log = []\<rparr> =
   Inr \<lparr>button_webpushed = [False, False, False, True, False, False, False, False],
        temp_change_calls = [], dprint_log = [Got_Button 3]\<rparr>"
proof -
  let ?st = "\<lparr>button_webpushed = replicate 8 False, temp_change_calls = [], dprint_log = []\<rparr>"
  have pd: "c_string (take 24 ''button=3'') = ''button=3''"
    by (simp add: c_string_def NUL_def)
  have "number_of ''3'' = 3"
    by (simp add: digit_number_def)
  then have "''button=3'' = ''button='' @ [] @ [] @ ''3'' @ [] \<and>
      set [] \<subseteq> set [CHR '' '', CHR 0x09, CHR 0x0A, CHR 0x0B, CHR 0x0C, CHR 0x0D] \<and>
      [] \<in> set [[], ''+'', ''-''] \<and>
      ''3'' \<noteq> [] \<and> set ''3'' \<subseteq> set ''0123456789'' \<and>
      ([] = [] \<or> hd [] \<notin> set ''0123456789'') \<and>
      (3 :: int) = (if [] = ''-'' then - int (number_of ''3'') else int (number_of ''3''))"
    by simp
  then have "spec_parses_as_button ''button=3'' 3"
    unfolding spec_parses_as_button_def by blast
  with pd have s: "spec_parses_as_button (c_string (take 24 ''button=3'')) 3 \<and>
      (0 :: int) \<le> 3 \<and> (3 :: int) \<le> 7"
    by simp
  from button_POST_handler_mirrors [of "''button=3''" ?st] obtain st' where
    r: "button_POST_handler (Received ''button=3'') ?st = Inr st'"
    and l: "\<forall>b. (spec_parses_as_button (c_string (take 24 ''button=3'')) b \<and> 0 \<le> b \<and> b \<le> 7) \<longleftrightarrow>
          dprint_log st' = dprint_log ?st @ [Got_Button b]"
    and e: "\<forall>b. spec_parses_as_button (c_string (take 24 ''button=3'')) b \<and> 0 \<le> b \<and> b \<le> 7 \<longrightarrow>
          nat b < NUM_BUTTONS \<and>
          button_webpushed st' = (button_webpushed ?st)[nat b := True] \<and>
          temp_change_calls st' = temp_change_calls ?st"
    by (elim exE conjE)
  from l [THEN spec, of 3] s have "dprint_log st' = [Got_Button 3]" by simp
  moreover from e [THEN spec, of 3] s have "button_webpushed st' = (replicate 8 False)[3 := True]"
    "temp_change_calls st' = []" by auto
  ultimately have "st' = \<lparr>button_webpushed = [False, False, False, True, False, False, False, False],
        temp_change_calls = [], dprint_log = [Got_Button 3]\<rparr>"
    by (cases st') (simp add: numeral_eq_Suc)
  with r s show ?thesis by simp
qed

subsection \<open>The visitor table\<close>

text \<open>What the loop returns.\<close>

lemma scan_clients_Already:
  "scan_clients cs addr ndx e m c = Already k \<Longrightarrow>
   ndx \<le> k \<and> k < MAX_IP_ADDRESSES \<and> ip_address (cs ! k) = addr \<and>
   (\<forall>j. ndx \<le> j \<and> j < k \<longrightarrow> ip_address (cs ! j) \<noteq> addr)"
proof (induction cs addr ndx e m c rule: scan_clients.induct)
  case (1 cs addr ndx e m c)
  show ?case
  proof (cases "ndx < MAX_IP_ADDRESSES")
    case False
    with "1.prems" show ?thesis by (simp add: scan_clients.simps [of cs addr ndx])
  next
    case inside: True
    show ?thesis
    proof (cases "ip_address (cs ! ndx) = addr")
      case True
      with inside "1.prems" show ?thesis
        by (auto simp: scan_clients.simps [of cs addr ndx])
    next
      case False
      have later: "\<exists>e' m' c'. scan_clients cs addr (ndx + 1) e' m' c' = Already k \<and>
          (Suc ndx \<le> k \<and> k < MAX_IP_ADDRESSES \<and> ip_address (cs ! k) = addr \<and>
             (\<forall>j. Suc ndx \<le> j \<and> j < k \<longrightarrow> ip_address (cs ! j) \<noteq> addr))"
        using "1.prems" "1.IH" inside False
        by (auto simp: scan_clients.simps [of cs addr ndx] split: if_splits)
      then have k: "Suc ndx \<le> k" "k < MAX_IP_ADDRESSES" "ip_address (cs ! k) = addr"
        and no: "\<forall>j. Suc ndx \<le> j \<and> j < k \<longrightarrow> ip_address (cs ! j) \<noteq> addr"
        by blast+
      have "\<forall>j. ndx \<le> j \<and> j < k \<longrightarrow> ip_address (cs ! j) \<noteq> addr"
      proof (intro allI impI)
        fix j assume "ndx \<le> j \<and> j < k"
        then have "j = ndx \<or> (Suc ndx \<le> j \<and> j < k)" by auto
        with False no show "ip_address (cs ! j) \<noteq> addr" by blast
      qed
      with k show ?thesis by simp
    qed
  qed
qed

lemma scan_clients_Absent:
  "scan_clients cs addr ndx e m c = Absent e' m' \<Longrightarrow>
   (\<forall>j. ndx \<le> j \<and> j < MAX_IP_ADDRESSES \<longrightarrow> ip_address (cs ! j) \<noteq> addr)"
proof (induction cs addr ndx e m c rule: scan_clients.induct)
  case (1 cs addr ndx e m c)
  show ?case
  proof (cases "ndx < MAX_IP_ADDRESSES")
    case False
    then show ?thesis by auto
  next
    case inside: True
    have here: "ip_address (cs ! ndx) \<noteq> addr"
      using "1.prems" inside by (auto simp: scan_clients.simps [of cs addr ndx] split: if_splits)
    have later: "\<forall>j. Suc ndx \<le> j \<and> j < MAX_IP_ADDRESSES \<longrightarrow> ip_address (cs ! j) \<noteq> addr"
      using "1.prems" "1.IH" inside here
      by (auto simp: scan_clients.simps [of cs addr ndx] split: if_splits)
    show ?thesis
    proof (intro allI impI)
      fix j assume "ndx \<le> j \<and> j < MAX_IP_ADDRESSES"
      then have "j = ndx \<or> (Suc ndx \<le> j \<and> j < MAX_IP_ADDRESSES)" by auto
      with here later show "ip_address (cs ! j) \<noteq> addr" by blast
    qed
  qed
qed

lemma scan_inv_start: "scan_inv cs 0 (- 1) (- 1) INT_MAX"
  by (simp add: scan_inv_def empty_inv_def min_inv_def)

lemma empty_inv_empty:
  assumes "empty_inv cs ndx e" and "count (cs ! ndx) = 0"
  shows "empty_inv cs (Suc ndx) (int ndx)"
  using assms by (simp add: empty_inv_def)

lemma empty_inv_occupied:
  assumes "empty_inv cs ndx e" and "count (cs ! ndx) \<noteq> 0"
  shows "empty_inv cs (Suc ndx) e"
proof (cases "e = - 1")
  case True
  with assms show ?thesis by (simp add: empty_inv_def less_Suc_eq)
next
  case False
  with assms have e: "0 \<le> e" "nat e < ndx" "count (cs ! nat e) = 0"
    "\<forall>j<ndx. count (cs ! j) = 0 \<longrightarrow> j \<le> nat e"
    by (simp_all add: empty_inv_def)
  have "\<forall>j<Suc ndx. count (cs ! j) = 0 \<longrightarrow> j \<le> nat e"
    using e(4) assms(2) by (auto simp: less_Suc_eq)
  with False e show ?thesis by (simp add: empty_inv_def)
qed

lemma min_inv_empty:
  assumes "min_inv cs ndx m c" and "count (cs ! ndx) = 0"
  shows "min_inv cs (Suc ndx) m c"
proof -
  from assms(1) have lower: "\<forall>j<ndx. count (cs ! j) \<noteq> 0 \<longrightarrow> sint c \<le> sint (count (cs ! j))"
    by (simp add: min_inv_def)
  have "\<forall>j<Suc ndx. count (cs ! j) \<noteq> 0 \<longrightarrow> sint c \<le> sint (count (cs ! j))"
    using lower assms(2) by (auto simp: less_Suc_eq)
  with assms(1) show ?thesis by (auto simp: min_inv_def)
qed

lemma min_inv_smaller:
  assumes inv: "min_inv cs ndx m c" and nz: "count (cs ! ndx) \<noteq> 0"
    and lt: "count (cs ! ndx) <s c"
  shows "min_inv cs (Suc ndx) (int ndx) (count (cs ! ndx))"
proof -
  let ?x = "count (cs ! ndx)"
  from inv have cmax: "sint c \<le> sint INT_MAX"
    and lower: "\<forall>j<ndx. count (cs ! j) \<noteq> 0 \<longrightarrow> sint c \<le> sint (count (cs ! j))"
    by (simp_all add: min_inv_def)
  from lt have x: "sint ?x < sint c" by (simp add: word_sless_alt)
  have strict: "\<forall>j<ndx. count (cs ! j) \<noteq> 0 \<longrightarrow> sint ?x < sint (count (cs ! j))"
    using lower x by fastforce
  have "\<forall>j<Suc ndx. count (cs ! j) \<noteq> 0 \<longrightarrow> sint ?x \<le> sint (count (cs ! j))"
    using strict by (auto simp: less_Suc_eq dest: less_imp_le)
  moreover have "sint ?x < sint INT_MAX" using x cmax by simp
  ultimately show ?thesis using strict nz by (simp add: min_inv_def)
qed

lemma min_inv_not_smaller:
  assumes inv: "min_inv cs ndx m c" and nz: "count (cs ! ndx) \<noteq> 0"
    and ge: "\<not> count (cs ! ndx) <s c"
  shows "min_inv cs (Suc ndx) m c"
proof -
  from inv have lower: "\<forall>j<ndx. count (cs ! j) \<noteq> 0 \<longrightarrow> sint c \<le> sint (count (cs ! j))"
    by (simp add: min_inv_def)
  from ge have "sint c \<le> sint (count (cs ! ndx))" by (simp add: word_sless_alt)
  with lower have "\<forall>j<Suc ndx. count (cs ! j) \<noteq> 0 \<longrightarrow> sint c \<le> sint (count (cs ! j))"
    by (auto simp: less_Suc_eq)
  with inv show ?thesis by (auto simp: min_inv_def)
qed

lemma scan_inv_empty:
  assumes "scan_inv cs ndx e m c" and "count (cs ! ndx) = 0"
  shows "scan_inv cs (Suc ndx) (int ndx) m c"
  using assms empty_inv_empty min_inv_empty unfolding scan_inv_def by blast

lemma scan_inv_smaller:
  assumes "scan_inv cs ndx e m c" and "count (cs ! ndx) \<noteq> 0"
    and "count (cs ! ndx) <s c"
  shows "scan_inv cs (Suc ndx) e (int ndx) (count (cs ! ndx))"
  using assms empty_inv_occupied min_inv_smaller unfolding scan_inv_def by blast

lemma scan_inv_not_smaller:
  assumes "scan_inv cs ndx e m c" and "count (cs ! ndx) \<noteq> 0"
    and "\<not> count (cs ! ndx) <s c"
  shows "scan_inv cs (Suc ndx) e m c"
  using assms empty_inv_occupied min_inv_not_smaller unfolding scan_inv_def by blast

lemma scan_clients_inv:
  "scan_clients cs addr ndx e m c = Absent e' m' \<Longrightarrow> ndx \<le> MAX_IP_ADDRESSES \<Longrightarrow>
   scan_inv cs ndx e m c \<Longrightarrow> \<exists>c'. scan_inv cs MAX_IP_ADDRESSES e' m' c'"
proof (induction cs addr ndx e m c rule: scan_clients.induct)
  case (1 cs addr ndx e m c)
  show ?case
  proof (cases "ndx < MAX_IP_ADDRESSES")
    case False
    with "1.prems" have "ndx = MAX_IP_ADDRESSES" "e' = e" "m' = m"
      by (auto simp: scan_clients.simps [of cs addr ndx])
    with "1.prems" show ?thesis by blast
  next
    case inside: True
    then have bound: "ndx + 1 \<le> MAX_IP_ADDRESSES" by simp
    have here: "ip_address (cs ! ndx) \<noteq> addr"
      using "1.prems" inside by (auto simp: scan_clients.simps [of cs addr ndx] split: if_splits)
    consider (empty) "count (cs ! ndx) = 0"
      | (smaller) "count (cs ! ndx) \<noteq> 0" "count (cs ! ndx) <s c"
      | (other) "count (cs ! ndx) \<noteq> 0" "\<not> count (cs ! ndx) <s c"
      by blast
    then show ?thesis
    proof cases
      case empty
      then have "scan_clients cs addr (ndx + 1) (int ndx) m c = Absent e' m'"
        using "1.prems"(1) inside here by (simp add: scan_clients.simps [of cs addr ndx])
      moreover have "scan_inv cs (ndx + 1) (int ndx) m c"
        using scan_inv_empty [OF "1.prems"(3) empty] by simp
      ultimately show ?thesis
        using "1.IH"(1) [OF inside here empty] bound by blast
    next
      case smaller
      then have "scan_clients cs addr (ndx + 1) e (int ndx) (count (cs ! ndx)) = Absent e' m'"
        using "1.prems"(1) inside here by (simp add: scan_clients.simps [of cs addr ndx])
      moreover have "scan_inv cs (ndx + 1) e (int ndx) (count (cs ! ndx))"
        using scan_inv_smaller [OF "1.prems"(3) smaller] by simp
      ultimately show ?thesis
        using "1.IH"(2) [OF inside here smaller] bound by blast
    next
      case other
      then have "scan_clients cs addr (ndx + 1) e m c = Absent e' m'"
        using "1.prems"(1) inside here by (simp add: scan_clients.simps [of cs addr ndx])
      moreover have "scan_inv cs (ndx + 1) e m c"
        using scan_inv_not_smaller [OF "1.prems"(3) other] by simp
      ultimately show ?thesis
        using "1.IH"(3) [OF inside here other] bound by blast
    qed
  qed
qed

lemma scan_clients_total:
  "(\<exists>k. scan_clients cs addr ndx e m c = Already k) \<or>
   (\<exists>e' m'. scan_clients cs addr ndx e m c = Absent e' m')"
  by (cases "scan_clients cs addr ndx e m c") auto

lemma scan_finds_first:
  assumes k: "k < MAX_IP_ADDRESSES" "ip_address (cs ! k) = addr"
    and first: "\<forall>j<k. ip_address (cs ! j) \<noteq> addr"
  shows "scan_clients cs addr 0 e m c = Already k"
proof -
  from scan_clients_total [of cs addr 0 e m c]
  show ?thesis
  proof (elim disjE exE)
    fix k' assume r: "scan_clients cs addr 0 e m c = Already k'"
    from scan_clients_Already [OF r]
    have k': "k' < MAX_IP_ADDRESSES" "ip_address (cs ! k') = addr"
      and first': "\<forall>j<k'. ip_address (cs ! j) \<noteq> addr"
      by auto
    have "\<not> k < k'" using first' k by blast
    moreover have "\<not> k' < k" using first k' by blast
    ultimately have "k' = k" by simp
    with r show ?thesis by simp
  next
    fix e' m' assume "scan_clients cs addr 0 e m c = Absent e' m'"
    from scan_clients_Absent [OF this] k show ?thesis by blast
  qed
qed

lemma scan_absent:
  assumes "\<forall>j<MAX_IP_ADDRESSES. ip_address (cs ! j) \<noteq> addr"
  shows "\<exists>e' m' c'. scan_clients cs addr 0 (- 1) (- 1) INT_MAX = Absent e' m' \<and>
           scan_inv cs MAX_IP_ADDRESSES e' m' c'"
proof -
  from scan_clients_total [of cs addr 0 "- 1" "- 1" INT_MAX]
  show ?thesis
  proof (elim disjE exE)
    fix k assume "scan_clients cs addr 0 (- 1) (- 1) INT_MAX = Already k"
    from scan_clients_Already [OF this] assms show ?thesis by blast
  next
    fix e' m' assume r: "scan_clients cs addr 0 (- 1) (- 1) INT_MAX = Absent e' m'"
    from scan_clients_inv [OF r _ scan_inv_start] r show ?thesis by auto
  qed
qed

text \<open>
  The four cases of \<^verbatim>\<open>remember_ip_address\<close>. An address that some row holds: the
  first such row gets its count incremented and its recent time set, and nothing else
  changes. An address no row holds, with an empty row in the table: the last empty row
  becomes the row of the address. An address no row holds, in a full table with a count
  below \<open>INT_MAX\<close>: the first row of least count becomes the row of the address. An
  address no row holds, in a full table with every count at \<open>INT_MAX\<close>: the store
  goes to \<^verbatim>\<open>clients[-1]\<close>.
\<close>

lemma remember_present:
  assumes "k < MAX_IP_ADDRESSES" "ip_address (clients ! k) = addr"
    and "\<forall>j<k. ip_address (clients ! j) \<noteq> addr"
  shows "remember_ip_address now clients addr =
     Inr (clients[k := (clients ! k)\<lparr>recent_time := now, count := count (clients ! k) + 1\<rparr>], k)"
  using scan_finds_first [OF assms] by (simp add: remember_ip_address_def)

lemma remember_new_empty:
  assumes absent: "\<forall>j<MAX_IP_ADDRESSES. ip_address (clients ! j) \<noteq> addr"
    and empty: "\<exists>j<MAX_IP_ADDRESSES. count (clients ! j) = 0"
  shows "\<exists>e<MAX_IP_ADDRESSES. count (clients ! e) = 0 \<and>
     (\<forall>j<MAX_IP_ADDRESSES. count (clients ! j) = 0 \<longrightarrow> j \<le> e) \<and>
     remember_ip_address now clients addr =
       Inr (clients[e := (clients ! e)\<lparr>ip_address := addr, count := 1, gave_password := False,
              first_time := now, recent_time := now\<rparr>], e)"
proof -
  from scan_absent [OF absent] obtain e' m' where
    r: "scan_clients clients addr 0 (- 1) (- 1) INT_MAX = Absent e' m'"
    and inv: "empty_inv clients MAX_IP_ADDRESSES e'"
    unfolding scan_inv_def by blast
  from inv empty have ne: "e' \<noteq> - 1" unfolding empty_inv_def by auto
  with inv have e: "0 \<le> e'" "nat e' < MAX_IP_ADDRESSES" "count (clients ! nat e') = 0"
    "\<forall>j<MAX_IP_ADDRESSES. count (clients ! j) = 0 \<longrightarrow> j \<le> nat e'"
    unfolding empty_inv_def by simp_all
  show ?thesis
    by (rule exI [of _ "nat e'"]) (use e r in \<open>simp add: remember_ip_address_def\<close>)
qed

lemma remember_new_full:
  assumes absent: "\<forall>j<MAX_IP_ADDRESSES. ip_address (clients ! j) \<noteq> addr"
    and full: "\<forall>j<MAX_IP_ADDRESSES. count (clients ! j) \<noteq> 0"
    and below: "\<exists>j<MAX_IP_ADDRESSES. count (clients ! j) <s INT_MAX"
  shows "\<exists>m<MAX_IP_ADDRESSES.
     (\<forall>j<MAX_IP_ADDRESSES. count (clients ! m) \<le>s count (clients ! j)) \<and>
     (\<forall>j<m. count (clients ! m) <s count (clients ! j)) \<and>
     remember_ip_address now clients addr =
       Inr (clients[m := (clients ! m)\<lparr>ip_address := addr, count := 1, gave_password := False,
              first_time := now, recent_time := now\<rparr>], m)"
proof -
  from scan_absent [OF absent] obtain e' m' c' where
    r: "scan_clients clients addr 0 (- 1) (- 1) INT_MAX = Absent e' m'"
    and einv: "empty_inv clients MAX_IP_ADDRESSES e'"
    and minv: "min_inv clients MAX_IP_ADDRESSES m' c'"
    unfolding scan_inv_def by blast
  have e: "e' = - 1"
  proof (rule ccontr)
    assume "e' \<noteq> - 1"
    with einv have "nat e' < MAX_IP_ADDRESSES" "count (clients ! nat e') = 0"
      unfolding empty_inv_def by simp_all
    with full show False by blast
  qed
  from minv have lower: "\<forall>j<MAX_IP_ADDRESSES. count (clients ! j) \<noteq> 0 \<longrightarrow>
      sint c' \<le> sint (count (clients ! j))"
    unfolding min_inv_def by simp
  have ne: "m' \<noteq> - 1"
  proof
    assume "m' = - 1"
    with minv have "c' = INT_MAX" unfolding min_inv_def by simp
    moreover from below obtain j where "j < MAX_IP_ADDRESSES" "count (clients ! j) <s INT_MAX"
      by blast
    ultimately show False using lower full by (auto simp: word_sless_alt)
  qed
  with minv have m: "0 \<le> m'" "nat m' < MAX_IP_ADDRESSES" "count (clients ! nat m') = c'"
    "\<forall>j<nat m'. count (clients ! j) \<noteq> 0 \<longrightarrow> sint c' < sint (count (clients ! j))"
    unfolding min_inv_def by simp_all
  have least: "\<forall>j<MAX_IP_ADDRESSES. count (clients ! nat m') \<le>s count (clients ! j)"
    using m(3) lower full by (simp add: word_sle_eq)
  have first: "\<forall>j<nat m'. count (clients ! nat m') <s count (clients ! j)"
    using m full by (simp add: word_sless_alt)
  show ?thesis
    by (rule exI [of _ "nat m'"]) (use e m(1,2) least first r in \<open>simp add: remember_ip_address_def\<close>)
qed

lemma remember_new_saturated:
  assumes absent: "\<forall>j<MAX_IP_ADDRESSES. ip_address (clients ! j) \<noteq> addr"
    and saturated: "\<forall>j<MAX_IP_ADDRESSES. count (clients ! j) = INT_MAX"
  shows "remember_ip_address now clients addr = Inl (Store_Out_Of_Bounds (- 1))"
proof -
  from scan_absent [OF absent] obtain e' m' c' where
    r: "scan_clients clients addr 0 (- 1) (- 1) INT_MAX = Absent e' m'"
    and einv: "empty_inv clients MAX_IP_ADDRESSES e'"
    and minv: "min_inv clients MAX_IP_ADDRESSES m' c'"
    unfolding scan_inv_def by blast
  have e: "e' = - 1"
  proof (rule ccontr)
    assume "e' \<noteq> - 1"
    with einv have "nat e' < MAX_IP_ADDRESSES" "count (clients ! nat e') = 0"
      unfolding empty_inv_def by simp_all
    with saturated show False by (simp add: INT_MAX_def)
  qed
  have m: "m' = - 1"
  proof (rule ccontr)
    assume "m' \<noteq> - 1"
    with minv have "nat m' < MAX_IP_ADDRESSES" "count (clients ! nat m') = c'"
      "sint c' < sint INT_MAX"
      unfolding min_inv_def by simp_all
    with saturated show False by simp
  qed
  show ?thesis using r e m by (simp add: remember_ip_address_def)
qed

text \<open>
  No table the function can produce from the initial one holds two visitors with the
  same address, and every such table has \<open>MAX_IP_ADDRESSES\<close> rows. The invariant
  behind it: two rows hold the same address only when that address is 0 (as in the rows
  never used), and a visitor with address 0 is the first row that holds 0.
\<close>

lemma visitors_inv_initial: "visitors_inv initial_clients"
  by (simp add: visitors_inv_def initial_clients_def zero_client_def)

lemma visitors_inv_present:
  assumes inv: "visitors_inv cs"
    and k: "k < MAX_IP_ADDRESSES" "\<forall>j<k. ip_address (cs ! j) \<noteq> ip_address (cs ! k)"
  shows "visitors_inv (cs[k := (cs ! k)\<lparr>recent_time := t, count := n\<rparr>])"
proof -
  let ?cs' = "cs[k := (cs ! k)\<lparr>recent_time := t, count := n\<rparr>]"
  from inv have len: "length cs = MAX_IP_ADDRESSES" by (simp add: visitors_inv_def)
  have ip: "ip_address (?cs' ! i) = ip_address (cs ! i)" if "i < MAX_IP_ADDRESSES" for i
    using that len by (cases "i = k") simp_all
  have cnt: "count (?cs' ! i) = count (cs ! i)" if "i \<noteq> k" for i
    using that by simp
  have first: "ip_address (?cs' ! j) \<noteq> 0"
    if i: "i < MAX_IP_ADDRESSES" "ip_address (?cs' ! i) = 0" "count (?cs' ! i) \<noteq> 0"
      and j: "j < i" for i j
  proof -
    from i(1) j have jb: "j < MAX_IP_ADDRESSES" by simp
    from i(2) ip [OF i(1)] have z: "ip_address (cs ! i) = 0" by simp
    have "ip_address (cs ! j) \<noteq> 0"
    proof (cases "i = k")
      case True
      with k(2) j have "ip_address (cs ! j) \<noteq> ip_address (cs ! i)" by simp
      with z show ?thesis by simp
    next
      case False
      with i(3) cnt have "count (cs ! i) \<noteq> 0" by simp
      with inv i(1) z j show ?thesis by (simp add: visitors_inv_def)
    qed
    with ip [OF jb] show ?thesis by simp
  qed
  have distinct: "ip_address (?cs' ! i) = 0"
    if ij: "i < MAX_IP_ADDRESSES" "j < MAX_IP_ADDRESSES" "i \<noteq> j"
      "ip_address (?cs' ! i) = ip_address (?cs' ! j)" for i j
  proof -
    from ij ip have "ip_address (cs ! i) = ip_address (cs ! j)" by simp
    with inv ij(1-3) have "ip_address (cs ! i) = 0" by (simp add: visitors_inv_def)
    with ip [OF ij(1)] show ?thesis by simp
  qed
  have l': "length ?cs' = MAX_IP_ADDRESSES" using len by simp
  show ?thesis
    unfolding visitors_inv_def
  proof (intro conjI allI impI)
    show "length ?cs' = MAX_IP_ADDRESSES" by (rule l')
  next
    fix i j assume "i < MAX_IP_ADDRESSES" "j < MAX_IP_ADDRESSES"
      "i \<noteq> j \<and> ip_address (?cs' ! i) = ip_address (?cs' ! j)"
    then show "ip_address (?cs' ! i) = 0" using distinct by blast
  next
    fix i j assume "i < MAX_IP_ADDRESSES"
      "ip_address (?cs' ! i) = 0 \<and> count (?cs' ! i) \<noteq> 0" "j < i"
    then show "ip_address (?cs' ! j) \<noteq> 0" using first by blast
  qed
qed

lemma visitors_inv_new:
  assumes inv: "visitors_inv cs"
    and absent: "\<forall>j<MAX_IP_ADDRESSES. ip_address (cs ! j) \<noteq> addr"
  shows "visitors_inv (cs[r := (cs ! r)\<lparr>ip_address := addr, count := 1, gave_password := False,
           first_time := t, recent_time := t\<rparr>])"
proof -
  let ?cs' = "cs[r := (cs ! r)\<lparr>ip_address := addr, count := 1, gave_password := False,
           first_time := t, recent_time := t\<rparr>]"
  from inv have len: "length cs = MAX_IP_ADDRESSES" by (simp add: visitors_inv_def)
  have ip_r: "ip_address (?cs' ! r) = addr" if "r < MAX_IP_ADDRESSES"
    using that len by simp
  have same: "?cs' ! i = cs ! i" if "i \<noteq> r" for i
    using that by simp
  have fresh: "ip_address (?cs' ! j) \<noteq> addr" if "j < MAX_IP_ADDRESSES" "j \<noteq> r" for j
    using that absent same by simp
  have distinct: "ip_address (?cs' ! i) = 0"
    if ij: "i < MAX_IP_ADDRESSES" "j < MAX_IP_ADDRESSES" "i \<noteq> j"
      "ip_address (?cs' ! i) = ip_address (?cs' ! j)" for i j
  proof -
    consider (i) "i = r" | (j) "j = r" | (none) "i \<noteq> r" "j \<noteq> r" by blast
    then show ?thesis
    proof cases
      case i
      with ij have "j \<noteq> r" by simp
      from fresh [OF ij(2) this] ip_r ij(1,4) i show ?thesis by simp
    next
      case j
      with ij have "i \<noteq> r" by simp
      from fresh [OF ij(1) this] ip_r ij(2,4) j show ?thesis by simp
    next
      case none
      with ij same have "ip_address (cs ! i) = ip_address (cs ! j)" by simp
      with inv ij(1-3) have "ip_address (cs ! i) = 0" by (simp add: visitors_inv_def)
      with none same show ?thesis by simp
    qed
  qed
  have first: "ip_address (?cs' ! j) \<noteq> 0"
    if i: "i < MAX_IP_ADDRESSES" "ip_address (?cs' ! i) = 0" "count (?cs' ! i) \<noteq> 0"
      and j: "j < i" for i j
  proof -
    from i(1) j have jb: "j < MAX_IP_ADDRESSES" by simp
    show ?thesis
    proof (cases "i = r")
      case True
      with i ip_r have "addr = 0" by simp
      moreover from True j have "j \<noteq> r" by simp
      ultimately show ?thesis using fresh [OF jb] by simp
    next
      case False
      with i same have old: "ip_address (cs ! i) = 0" "count (cs ! i) \<noteq> 0" by simp_all
      from absent i(1) old(1) have nz: "addr \<noteq> 0" by auto
      show ?thesis
      proof (cases "j = r")
        case True
        with ip_r jb nz show ?thesis by simp
      next
        case False
        from inv i(1) old j have "ip_address (cs ! j) \<noteq> 0" by (simp add: visitors_inv_def)
        with False same show ?thesis by simp
      qed
    qed
  qed
  have l': "length ?cs' = MAX_IP_ADDRESSES" using len by simp
  show ?thesis
    unfolding visitors_inv_def
  proof (intro conjI allI impI)
    show "length ?cs' = MAX_IP_ADDRESSES" by (rule l')
  next
    fix i j assume "i < MAX_IP_ADDRESSES" "j < MAX_IP_ADDRESSES"
      "i \<noteq> j \<and> ip_address (?cs' ! i) = ip_address (?cs' ! j)"
    then show "ip_address (?cs' ! i) = 0" using distinct by blast
  next
    fix i j assume "i < MAX_IP_ADDRESSES"
      "ip_address (?cs' ! i) = 0 \<and> count (?cs' ! i) \<noteq> 0" "j < i"
    then show "ip_address (?cs' ! j) \<noteq> 0" using first by blast
  qed
qed

lemma visitors_inv_step:
  assumes inv: "visitors_inv cs"
    and step: "remember_ip_address now cs addr = Inr (cs', r)"
  shows "visitors_inv cs'"
proof -
  from scan_clients_total [of cs addr 0 "- 1" "- 1" INT_MAX]
  show ?thesis
  proof (elim disjE exE)
    fix k assume s: "scan_clients cs addr 0 (- 1) (- 1) INT_MAX = Already k"
    from scan_clients_Already [OF s]
    have k: "k < MAX_IP_ADDRESSES" "\<forall>j<k. ip_address (cs ! j) \<noteq> ip_address (cs ! k)"
      by auto
    from step s have "cs' = cs[k := (cs ! k)\<lparr>recent_time := now, count := count (cs ! k) + 1\<rparr>]"
      by (auto simp: remember_ip_address_def)
    with visitors_inv_present [OF inv k] show ?thesis by simp
  next
    fix e' m' assume s: "scan_clients cs addr 0 (- 1) (- 1) INT_MAX = Absent e' m'"
    from scan_clients_Absent [OF s]
    have absent: "\<forall>j<MAX_IP_ADDRESSES. ip_address (cs ! j) \<noteq> addr" by simp
    define q where "q = nat (if e' \<ge> 0 then e' else m')"
    from step s have "cs' = cs[q := (cs ! q)\<lparr>ip_address := addr, count := 1,
        gave_password := False, first_time := now, recent_time := now\<rparr>]"
      unfolding q_def remember_ip_address_def Let_def
      by (simp split: if_splits)
    with visitors_inv_new [OF inv absent] show ?thesis by simp
  qed
qed

lemma visitors_inv_no_duplicates:
  assumes "visitors_inv cs"
  shows "no_duplicate_visitors cs"
  unfolding no_duplicate_visitors_def
proof (intro allI impI)
  fix i j
  assume i: "i < length cs" and j: "j < length cs"
    and d: "i \<noteq> j \<and> count (cs ! i) \<noteq> 0 \<and> count (cs ! j) \<noteq> 0"
  from assms i j have b: "i < MAX_IP_ADDRESSES" "j < MAX_IP_ADDRESSES"
    by (simp_all add: visitors_inv_def)
  from assms have firsts: "\<And>a b. a < MAX_IP_ADDRESSES \<Longrightarrow> ip_address (cs ! a) = 0 \<Longrightarrow>
      count (cs ! a) \<noteq> 0 \<Longrightarrow> b < a \<Longrightarrow> ip_address (cs ! b) \<noteq> 0"
    by (simp add: visitors_inv_def)
  from assms have zero: "\<And>a b. a < MAX_IP_ADDRESSES \<Longrightarrow> b < MAX_IP_ADDRESSES \<Longrightarrow> a \<noteq> b \<Longrightarrow>
      ip_address (cs ! a) = ip_address (cs ! b) \<Longrightarrow> ip_address (cs ! a) = 0"
    by (simp add: visitors_inv_def)
  show "ip_address (cs ! i) \<noteq> ip_address (cs ! j)"
  proof
    assume eq: "ip_address (cs ! i) = ip_address (cs ! j)"
    from zero [OF b] d eq have zi: "ip_address (cs ! i) = 0" by simp
    with eq have zj: "ip_address (cs ! j) = 0" by simp
    have "\<not> j < i" using firsts [OF b(1) zi, of j] d zj by blast
    moreover have "\<not> i < j" using firsts [OF b(2) zj, of i] d zi by blast
    ultimately show False using d by simp
  qed
qed

lemma reachable_visitors_inv: "reachable_clients cs \<Longrightarrow> visitors_inv cs"
proof (induction rule: reachable_clients.induct)
  case start
  show ?case by (rule visitors_inv_initial)
next
  case (visit clients now addr clients' ndx)
  from visit.IH visit.hyps(2) show ?case by (rule visitors_inv_step)
qed

lemma reachable_no_duplicates:
  "reachable_clients clients \<Longrightarrow>
   length clients = MAX_IP_ADDRESSES \<and> no_duplicate_visitors clients"
  using reachable_visitors_inv visitors_inv_no_duplicates
  by (auto simp: visitors_inv_def)

text \<open>
  The full table with every count at \<open>INT_MAX\<close> is one of the tables the function
  can produce: fifty addresses fill the table from its last row to its first, and each
  of them then comes back until its count is \<open>INT_MAX\<close>.
\<close>

lemma saturated_clients_nth:
  "j < MAX_IP_ADDRESSES \<Longrightarrow>
   saturated_clients t ! j = \<lparr>ip_address = of_nat (Suc j), count = INT_MAX, first_time = t,
                 recent_time = t, gave_password = False\<rparr>"
  by (simp add: saturated_clients_def)

lemma small_address_inj:
  "a < 2 ^ 32 \<Longrightarrow> b < 2 ^ 32 \<Longrightarrow> (of_nat a :: 32 word) = of_nat b \<longleftrightarrow> a = b"
proof
  assume "(of_nat a :: 32 word) = of_nat b"
  then have "unat (of_nat a :: 32 word) = unat (of_nat b :: 32 word)" by simp
  moreover assume "a < 2 ^ 32" "b < 2 ^ 32"
  ultimately show "a = b" by (simp add: unat_of_nat)
qed simp

lemma slot_address_neq:
  "i < MAX_IP_ADDRESSES \<Longrightarrow> j < MAX_IP_ADDRESSES \<Longrightarrow> i \<noteq> j \<Longrightarrow>
   (of_nat (Suc i) :: 32 word) \<noteq> of_nat (Suc j)"
  using small_address_inj [of "Suc i" "Suc j"] by (simp add: MAX_IP_ADDRESSES_def)

lemma slot_address_nonzero:
  "i < MAX_IP_ADDRESSES \<Longrightarrow> (of_nat (Suc i) :: 32 word) \<noteq> 0"
  using small_address_inj [of "Suc i" 0] by (simp add: MAX_IP_ADDRESSES_def)

lemma filled_clients_nth:
  "j < MAX_IP_ADDRESSES \<Longrightarrow>
   filled_clients n t ! j =
     (if j < MAX_IP_ADDRESSES - n then zero_client else fresh_client (of_nat (Suc j)) t)"
  by (simp add: filled_clients_def)

lemma filled_clients_length: "length (filled_clients n t) = MAX_IP_ADDRESSES"
  by (simp add: filled_clients_def)

lemma filled_clients_start: "filled_clients 0 t = initial_clients"
proof (rule nth_equalityI)
  show "length (filled_clients 0 t) = length initial_clients"
    by (simp add: filled_clients_def initial_clients_def)
next
  fix i assume "i < length (filled_clients 0 t)"
  then have "i < MAX_IP_ADDRESSES" by (simp add: filled_clients_def)
  then show "filled_clients 0 t ! i = initial_clients ! i"
    by (simp add: filled_clients_nth initial_clients_def)
qed

lemma filled_clients_step:
  assumes n: "n < MAX_IP_ADDRESSES"
  shows "\<exists>e. remember_ip_address t (filled_clients n t) (of_nat (MAX_IP_ADDRESSES - n)) =
     Inr (filled_clients (Suc n) t, e)"
proof -
  let ?cs = "filled_clients n t"
  let ?e = "MAX_IP_ADDRESSES - Suc n"
  let ?addr = "of_nat (MAX_IP_ADDRESSES - n) :: 32 word"
  from n have e: "?e < MAX_IP_ADDRESSES" "Suc ?e = MAX_IP_ADDRESSES - n" by simp_all
  have absent: "\<forall>j<MAX_IP_ADDRESSES. ip_address (?cs ! j) \<noteq> ?addr"
  proof (intro allI impI)
    fix j assume j: "j < MAX_IP_ADDRESSES"
    show "ip_address (?cs ! j) \<noteq> ?addr"
    proof (cases "j < MAX_IP_ADDRESSES - n")
      case True
      with j have "ip_address (?cs ! j) = 0" by (simp add: filled_clients_nth zero_client_def)
      with slot_address_nonzero [OF e(1)] e(2) show ?thesis by simp
    next
      case False
      with j have "ip_address (?cs ! j) = of_nat (Suc j)"
        by (simp add: filled_clients_nth fresh_client_def)
      moreover from False e have "j \<noteq> ?e" by simp
      ultimately show ?thesis using slot_address_neq [OF j e(1)] e(2) by simp
    qed
  qed
  have cnt: "count (?cs ! j) = 0 \<longleftrightarrow> j < MAX_IP_ADDRESSES - n" if "j < MAX_IP_ADDRESSES" for j
    using that by (simp add: filled_clients_nth zero_client_def fresh_client_def)
  from n have "0 < MAX_IP_ADDRESSES" "0 < MAX_IP_ADDRESSES - n" by simp_all
  with cnt [of 0] have "\<exists>j<MAX_IP_ADDRESSES. count (?cs ! j) = 0" by blast
  from remember_new_empty [OF absent this, of t] obtain q where
    q: "q < MAX_IP_ADDRESSES" "count (?cs ! q) = 0"
      "\<forall>j<MAX_IP_ADDRESSES. count (?cs ! j) = 0 \<longrightarrow> j \<le> q"
    and r: "remember_ip_address t ?cs ?addr =
       Inr (?cs[q := (?cs ! q)\<lparr>ip_address := ?addr, count := 1, gave_password := False,
              first_time := t, recent_time := t\<rparr>], q)"
    by blast
  from q(1,2) cnt have "q < MAX_IP_ADDRESSES - n" by simp
  moreover have "?e \<le> q"
  proof -
    from n have "?e < MAX_IP_ADDRESSES - n" by simp
    with cnt [OF e(1)] have "count (?cs ! ?e) = 0" by simp
    with q(3) e(1) show ?thesis by blast
  qed
  ultimately have qe: "q = ?e" by simp
  have "?cs[?e := (?cs ! ?e)\<lparr>ip_address := ?addr, count := 1, gave_password := False,
              first_time := t, recent_time := t\<rparr>] = filled_clients (Suc n) t"
  proof (rule nth_equalityI)
    show "length (?cs[?e := (?cs ! ?e)\<lparr>ip_address := ?addr, count := 1, gave_password := False,
              first_time := t, recent_time := t\<rparr>]) = length (filled_clients (Suc n) t)"
      by (simp add: filled_clients_length)
  next
    fix i
    assume "i < length (?cs[?e := (?cs ! ?e)\<lparr>ip_address := ?addr, count := 1,
              gave_password := False, first_time := t, recent_time := t\<rparr>])"
    then have i: "i < MAX_IP_ADDRESSES" by (simp add: filled_clients_length)
    show "?cs[?e := (?cs ! ?e)\<lparr>ip_address := ?addr, count := 1, gave_password := False,
              first_time := t, recent_time := t\<rparr>] ! i = filled_clients (Suc n) t ! i"
    proof (cases "i = ?e")
      case True
      with e show ?thesis
        by (simp add: filled_clients_length filled_clients_nth fresh_client_def zero_client_def
            del: of_nat_Suc)
    next
      case False
      with i e show ?thesis
        by (auto simp: filled_clients_nth)
    qed
  qed
  with r qe show ?thesis by auto
qed

lemma reachable_filled: "n \<le> MAX_IP_ADDRESSES \<Longrightarrow> reachable_clients (filled_clients n t)"
proof (induction n)
  case 0
  show ?case unfolding filled_clients_start by (rule reachable_clients.start)
next
  case (Suc n)
  then have "n < MAX_IP_ADDRESSES" and r: "reachable_clients (filled_clients n t)" by simp_all
  from filled_clients_step [OF this(1), of t] obtain e where
    "remember_ip_address t (filled_clients n t) (of_nat (MAX_IP_ADDRESSES - n)) =
     Inr (filled_clients (Suc n) t, e)" by blast
  with r show ?case by (rule reachable_clients.visit)
qed

lemma reachable_revisit:
  assumes r: "reachable_clients cs" and k: "k < MAX_IP_ADDRESSES"
    and first: "\<forall>j<k. ip_address (cs ! j) \<noteq> ip_address (cs ! k)"
  shows "reachable_clients
     (cs[k := (cs ! k)\<lparr>recent_time := t, count := count (cs ! k) + of_nat (Suc n)\<rparr>])"
proof (induction n)
  case 0
  from remember_present [OF k refl first, of t]
  have "remember_ip_address t cs (ip_address (cs ! k)) =
     Inr (cs[k := (cs ! k)\<lparr>recent_time := t, count := count (cs ! k) + of_nat (Suc 0)\<rparr>], k)"
    by simp
  with r show ?case by (rule reachable_clients.visit)
next
  case (Suc n)
  let ?cs1 = "cs[k := (cs ! k)\<lparr>recent_time := t, count := count (cs ! k) + of_nat (Suc n)\<rparr>]"
  from r have len: "length cs = MAX_IP_ADDRESSES"
    using reachable_visitors_inv by (simp add: visitors_inv_def)
  with k have at: "?cs1 ! k = (cs ! k)\<lparr>recent_time := t, count := count (cs ! k) + of_nat (Suc n)\<rparr>"
    by simp
  have first1: "\<forall>j<k. ip_address (?cs1 ! j) \<noteq> ip_address (?cs1 ! k)"
    using first at by simp
  from remember_present [OF k refl first1, of t]
  have "remember_ip_address t ?cs1 (ip_address (?cs1 ! k)) =
     Inr (?cs1[k := (?cs1 ! k)\<lparr>recent_time := t, count := count (?cs1 ! k) + 1\<rparr>], k)" .
  moreover have "?cs1[k := (?cs1 ! k)\<lparr>recent_time := t, count := count (?cs1 ! k) + 1\<rparr>] =
      cs[k := (cs ! k)\<lparr>recent_time := t, count := count (cs ! k) + of_nat (Suc (Suc n))\<rparr>]"
    unfolding at by (simp add: ac_simps)
  ultimately have "remember_ip_address t ?cs1 (ip_address (?cs1 ! k)) =
     Inr (cs[k := (cs ! k)\<lparr>recent_time := t, count := count (cs ! k) + of_nat (Suc (Suc n))\<rparr>], k)"
    by simp
  with Suc.IH show ?case by (rule reachable_clients.visit)
qed

lemma partly_saturated_nth:
  "j < MAX_IP_ADDRESSES \<Longrightarrow>
   partly_saturated m t ! j =
     (if j < m
      then \<lparr>ip_address = of_nat (Suc j), count = INT_MAX, first_time = t,
           recent_time = t, gave_password = False\<rparr>
      else fresh_client (of_nat (Suc j)) t)"
  by (simp add: partly_saturated_def)

lemma partly_saturated_step:
  assumes m: "m < MAX_IP_ADDRESSES"
  shows "(partly_saturated m t)[m := (partly_saturated m t ! m)
           \<lparr>recent_time := t, count := count (partly_saturated m t ! m) + of_nat (Suc 2147483645)\<rparr>] =
         partly_saturated (Suc m) t"
proof (rule nth_equalityI)
  show "length ((partly_saturated m t)[m := (partly_saturated m t ! m)
           \<lparr>recent_time := t, count := count (partly_saturated m t ! m) + of_nat (Suc 2147483645)\<rparr>]) =
        length (partly_saturated (Suc m) t)"
    by (simp add: partly_saturated_def)
next
  fix i
  assume "i < length ((partly_saturated m t)[m := (partly_saturated m t ! m)
           \<lparr>recent_time := t, count := count (partly_saturated m t ! m) + of_nat (Suc 2147483645)\<rparr>])"
  then have i: "i < MAX_IP_ADDRESSES" by (simp add: partly_saturated_def)
  have sat: "(1 :: 32 word) + of_nat (Suc 2147483645) = INT_MAX"
    by (simp add: INT_MAX_def)
  show "(partly_saturated m t)[m := (partly_saturated m t ! m)
           \<lparr>recent_time := t, count := count (partly_saturated m t ! m) + of_nat (Suc 2147483645)\<rparr>] ! i =
        partly_saturated (Suc m) t ! i"
  proof (cases "i = m")
    case True
    have len: "m < length (partly_saturated m t)" using m by (simp add: partly_saturated_def)
    have "partly_saturated m t ! m = fresh_client (of_nat (Suc m)) t"
      using m by (simp add: partly_saturated_nth)
    then have "(partly_saturated m t ! m)
           \<lparr>recent_time := t, count := count (partly_saturated m t ! m) + of_nat (Suc 2147483645)\<rparr> =
        \<lparr>ip_address = of_nat (Suc m), count = INT_MAX, first_time = t,
           recent_time = t, gave_password = False\<rparr>"
      using sat by (simp add: fresh_client_def del: of_nat_Suc)
    with True len m show ?thesis
      by (simp add: partly_saturated_nth del: of_nat_Suc)
  next
    case False
    with i show ?thesis by (auto simp: partly_saturated_nth)
  qed
qed

lemma reachable_partly_saturated:
  "m \<le> MAX_IP_ADDRESSES \<Longrightarrow> reachable_clients (partly_saturated m t)"
proof (induction m)
  case 0
  have "partly_saturated 0 t = filled_clients MAX_IP_ADDRESSES t"
    by (simp add: partly_saturated_def filled_clients_def)
  with reachable_filled [of MAX_IP_ADDRESSES t] show ?case by simp
next
  case (Suc m)
  then have m: "m < MAX_IP_ADDRESSES" and r: "reachable_clients (partly_saturated m t)"
    by simp_all
  have first: "\<forall>j<m. ip_address (partly_saturated m t ! j) \<noteq> ip_address (partly_saturated m t ! m)"
  proof (intro allI impI)
    fix j assume j: "j < m"
    with m have jb: "j < MAX_IP_ADDRESSES" "j \<noteq> m" by simp_all
    from slot_address_neq [OF jb(1) m jb(2)] j m jb(1)
    show "ip_address (partly_saturated m t ! j) \<noteq> ip_address (partly_saturated m t ! m)"
      by (simp add: partly_saturated_nth fresh_client_def del: of_nat_Suc)
  qed
  from reachable_revisit [OF r m first, where t = t and n = 2147483645]
  show ?case unfolding partly_saturated_step [OF m] .
qed

lemma reachable_saturated: "reachable_clients (saturated_clients t)"
proof -
  have "partly_saturated MAX_IP_ADDRESSES t = saturated_clients t"
    by (simp add: partly_saturated_def saturated_clients_def)
  with reachable_partly_saturated [of MAX_IP_ADDRESSES t] show ?thesis by simp
qed

lemma remember_saturated_fault:
  "remember_ip_address now (saturated_clients t) 51 = Inl (Store_Out_Of_Bounds (- 1))"
proof (rule remember_new_saturated)
  show "\<forall>j<MAX_IP_ADDRESSES. ip_address (saturated_clients t ! j) \<noteq> 51"
  proof (intro allI impI)
    fix j assume j: "j < MAX_IP_ADDRESSES"
    then have "Suc j < 2 ^ 32" "Suc j \<noteq> 51" by (simp_all add: MAX_IP_ADDRESSES_def)
    with small_address_inj [of "Suc j" 51] have "(of_nat (Suc j) :: 32 word) \<noteq> of_nat 51" by simp
    with j show "ip_address (saturated_clients t ! j) \<noteq> 51"
      by (simp add: saturated_clients_nth del: of_nat_Suc)
  qed
  show "\<forall>j<MAX_IP_ADDRESSES. count (saturated_clients t ! j) = INT_MAX"
    by (simp add: saturated_clients_nth)
qed

text \<open>
  Claim C9, at the input where the code leaves it. The table
  \<open>saturated_clients t\<close> is one the function can produce from the initial table. It
  is full: fifty rows with the addresses 1 to 50, each with the count \<open>INT_MAX\<close>.
  A request from address 51 finds no row with that address, no empty row and no count
  below \<open>INT_MAX\<close>, so the entry of minimum count is not overwritten: the function
  stores at \<^verbatim>\<open>clients[-1]\<close>.
\<close>

theorem remember_ip_address_saturated:
  "reachable_clients (saturated_clients t) \<and>
   length (saturated_clients t) = MAX_IP_ADDRESSES \<and>
   map count (saturated_clients t) = replicate MAX_IP_ADDRESSES INT_MAX \<and>
   51 \<notin> set (map ip_address (saturated_clients t)) \<and>
   remember_ip_address now (saturated_clients t) 51 = Inl (Store_Out_Of_Bounds (- 1))"
proof -
  have len: "length (saturated_clients t) = MAX_IP_ADDRESSES"
    by (simp add: saturated_clients_def)
  have counts: "map count (saturated_clients t) = replicate MAX_IP_ADDRESSES INT_MAX"
    by (simp add: saturated_clients_def comp_def map_replicate_const)
  have "ip_address (saturated_clients t ! j) \<noteq> 51" if "j < MAX_IP_ADDRESSES" for j
  proof -
    from that have "Suc j < 2 ^ 32" "Suc j \<noteq> 51" by (simp_all add: MAX_IP_ADDRESSES_def)
    with small_address_inj [of "Suc j" 51] have "(of_nat (Suc j) :: 32 word) \<noteq> of_nat 51"
      by simp
    with that show ?thesis by (simp add: saturated_clients_nth del: of_nat_Suc)
  qed
  with len have absent: "51 \<notin> set (map ip_address (saturated_clients t))"
    by (auto simp: in_set_conv_nth)
  from reachable_saturated len counts absent remember_saturated_fault
  show ?thesis by blast
qed

section \<open>Properties of the parts modelled from the spec\<close>

subsection \<open>The temperature setpoint\<close>

lemma temp_change_pool_up:
  "temp_change HEATING_POOL 1 t = Some (max 60 (min 92 (t + 1)))"
  by (simp add: temp_change_def temp_bounds_def TEMP_MIN_def TEMP_MAX_POOL_def)

lemma pool_ticks_up:
  "60 \<le> t \<Longrightarrow> t \<le> 92 \<Longrightarrow>
   encoder_ticks HEATING_POOL (replicate k 1) t = Some (min 92 (t + int k))"
proof (induction k arbitrary: t)
  case 0
  then show ?case by simp
next
  case (Suc k)
  let ?t = "max 60 (min 92 (t + 1))"
  have step: "?t = min 92 (t + 1)" using Suc.prems by simp
  have "60 \<le> ?t" "?t \<le> 92" by simp_all
  from Suc.IH [OF this]
  have "encoder_ticks HEATING_POOL (replicate k 1) ?t = Some (min 92 (?t + int k))" .
  moreover have "min 92 (?t + int k) = min 92 (t + int (Suc k))"
    unfolding step by simp
  ultimately show ?case by (simp add: temp_change_pool_up)
qed

lemma clamp_step:
  fixes lo hi t d :: int
  assumes "lo \<le> hi" and "d = 1 \<or> d = - 1"
  shows "(lo \<le> t + d \<and> t + d \<le> hi \<longrightarrow> max lo (min hi (t + d)) = t + d) \<and>
         (lo \<le> t \<and> t \<le> hi \<longrightarrow>
            lo \<le> max lo (min hi (t + d)) \<and> max lo (min hi (t + d)) \<le> hi \<and>
            \<bar>max lo (min hi (t + d)) - t\<bar> \<le> 1)"
  using assms by (auto simp: min_def max_def)

lemma temp_change_tick:
  fixes direction :: "8 word"
  assumes h: "heater_mode \<noteq> HEATING_NONE" and d: "direction = 1 \<or> direction = - 1"
  shows "\<exists>lo hi. temp_bounds heater_mode = Some (lo, hi) \<and> \<bar>sint direction\<bar> = 1 \<and>
         temp_change heater_mode direction target = Some (max lo (min hi (target + sint direction))) \<and>
         (lo \<le> target + sint direction \<and> target + sint direction \<le> hi \<longrightarrow>
            temp_change heater_mode direction target = Some (target + sint direction)) \<and>
         (lo \<le> target \<and> target \<le> hi \<longrightarrow>
            (\<exists>target'. temp_change heater_mode direction target = Some target' \<and>
               lo \<le> target' \<and> target' \<le> hi \<and> \<bar>target' - target\<bar> \<le> 1))"
proof -
  from h obtain lo hi where b: "temp_bounds heater_mode = Some (lo, hi)" and le: "lo \<le> hi"
    by (cases heater_mode)
      (simp_all add: temp_bounds_def TEMP_MIN_def TEMP_MAX_POOL_def TEMP_MAX_SPA_def)
  from d have s: "sint direction = 1 \<or> sint direction = - 1"
  proof
    assume "direction = 1" then show ?thesis by simp
  next
    assume "direction = - 1" then show ?thesis by simp
  qed
  then have a: "\<bar>sint direction\<bar> = 1" by linarith
  have c: "temp_change heater_mode direction target =
      Some (max lo (min hi (target + sint direction)))"
    by (simp add: temp_change_def b)
  from clamp_step [OF le s, of target]
  have k: "(lo \<le> target + sint direction \<and> target + sint direction \<le> hi \<longrightarrow>
        max lo (min hi (target + sint direction)) = target + sint direction)"
    and r: "(lo \<le> target \<and> target \<le> hi \<longrightarrow>
        lo \<le> max lo (min hi (target + sint direction)) \<and>
        max lo (min hi (target + sint direction)) \<le> hi \<and>
        \<bar>max lo (min hi (target + sint direction)) - target\<bar> \<le> 1)"
    by blast+
  show ?thesis
  proof (intro exI conjI)
    show "temp_bounds heater_mode = Some (lo, hi)" by (rule b)
    show "\<bar>sint direction\<bar> = 1" by (rule a)
    show "temp_change heater_mode direction target =
      Some (max lo (min hi (target + sint direction)))" by (rule c)
    show "lo \<le> target + sint direction \<and> target + sint direction \<le> hi \<longrightarrow>
      temp_change heater_mode direction target = Some (target + sint direction)"
      using k c by simp
    show "lo \<le> target \<and> target \<le> hi \<longrightarrow>
      (\<exists>target'. temp_change heater_mode direction target = Some target' \<and>
         lo \<le> target' \<and> target' \<le> hi \<and> \<bar>target' - target\<bar> \<le> 1)"
      using r c by simp
  qed
qed

text \<open>
  Claim C5. While the pool or the spa is heated, an encoder tick of +1 or -1 moves the
  setpoint by that one degree and clamps the result to the bounds of the accessory
  heated, \<open>[60, 92]\<close> for the pool and \<open>[60, 105]\<close> for the spa: the new setpoint
  is the old one plus the tick when that is within the bounds, and a setpoint within
  the bounds stays within them and moves by at most one degree. Starting from 80 while
  the pool is heated, \<open>k\<close> ticks of +1 give \<open>min 92 (80 + k)\<close> for every
  \<open>k \<le> 25\<close>, so the setpoint never exceeds 92 on the way, and 25 ticks give 92.
\<close>

theorem setpoint_tick_clamped:
  "(\<forall>heater_mode direction target.
      heater_mode \<noteq> HEATING_NONE \<and> (direction = 1 \<or> direction = - 1) \<longrightarrow>
      (\<exists>lo hi. temp_bounds heater_mode = Some (lo, hi) \<and> \<bar>sint direction\<bar> = 1 \<and>
         temp_change heater_mode direction target = Some (max lo (min hi (target + sint direction))) \<and>
         (lo \<le> target + sint direction \<and> target + sint direction \<le> hi \<longrightarrow>
            temp_change heater_mode direction target = Some (target + sint direction)) \<and>
         (lo \<le> target \<and> target \<le> hi \<longrightarrow>
            (\<exists>target'. temp_change heater_mode direction target = Some target' \<and>
               lo \<le> target' \<and> target' \<le> hi \<and> \<bar>target' - target\<bar> \<le> 1)))) \<and>
   temp_bounds HEATING_POOL = Some (60, 92) \<and>
   temp_bounds HEATING_SPA = Some (60, 105) \<and>
   (\<forall>k\<le>25. encoder_ticks HEATING_POOL (replicate k 1) 80 = Some (min 92 (80 + int k))) \<and>
   encoder_ticks HEATING_POOL (replicate 25 1) 80 = Some 92"
proof (intro conjI allI impI)
  fix heater_mode and direction :: "8 word" and target
  assume "heater_mode \<noteq> HEATING_NONE \<and> (direction = 1 \<or> direction = - 1)"
  then show "\<exists>lo hi. temp_bounds heater_mode = Some (lo, hi) \<and> \<bar>sint direction\<bar> = 1 \<and>
         temp_change heater_mode direction target = Some (max lo (min hi (target + sint direction))) \<and>
         (lo \<le> target + sint direction \<and> target + sint direction \<le> hi \<longrightarrow>
            temp_change heater_mode direction target = Some (target + sint direction)) \<and>
         (lo \<le> target \<and> target \<le> hi \<longrightarrow>
            (\<exists>target'. temp_change heater_mode direction target = Some target' \<and>
               lo \<le> target' \<and> target' \<le> hi \<and> \<bar>target' - target\<bar> \<le> 1))"
    using temp_change_tick by blast
next
  show "temp_bounds HEATING_POOL = Some (60, 92)"
    by (simp add: temp_bounds_def TEMP_MIN_def TEMP_MAX_POOL_def)
next
  show "temp_bounds HEATING_SPA = Some (60, 105)"
    by (simp add: temp_bounds_def TEMP_MIN_def TEMP_MAX_SPA_def)
next
  fix k :: nat
  show "encoder_ticks HEATING_POOL (replicate k 1) 80 = Some (min 92 (80 + int k))"
    using pool_ticks_up [of 80 k] by simp
next
  show "encoder_ticks HEATING_POOL (replicate 25 1) 80 = Some 92"
    using pool_ticks_up [of 80 25] by simp
qed

theorem setpoint_tick_clamped_witness:
  "HEATING_POOL \<noteq> HEATING_NONE \<and> ((1 :: 8 word) = 1 \<or> (1 :: 8 word) = - 1) \<and>
   temp_change HEATING_POOL 1 80 = Some 81 \<and> temp_change HEATING_POOL 1 92 = Some 92 \<and>
   (25 :: nat) \<le> 25 \<and> encoder_ticks HEATING_POOL (replicate 25 1) 80 = Some 92"
proof -
  note tc = setpoint_tick_clamped
  have h: "HEATING_POOL \<noteq> HEATING_NONE \<and> ((1 :: 8 word) = 1 \<or> (1 :: 8 word) = - 1)" by simp
  from tc have b: "temp_bounds HEATING_POOL = Some (60, 92)" by (elim conjE)
  from tc have all: "\<forall>heater_mode direction target.
      heater_mode \<noteq> HEATING_NONE \<and> (direction = 1 \<or> direction = - 1) \<longrightarrow>
      (\<exists>lo hi. temp_bounds heater_mode = Some (lo, hi) \<and> \<bar>sint direction\<bar> = 1 \<and>
         temp_change heater_mode direction target = Some (max lo (min hi (target + sint direction))) \<and>
         (lo \<le> target + sint direction \<and> target + sint direction \<le> hi \<longrightarrow>
            temp_change heater_mode direction target = Some (target + sint direction)) \<and>
         (lo \<le> target \<and> target \<le> hi \<longrightarrow>
            (\<exists>target'. temp_change heater_mode direction target = Some target' \<and>
               lo \<le> target' \<and> target' \<le> hi \<and> \<bar>target' - target\<bar> \<le> 1)))"
    by (elim conjE)
  have c: "temp_change HEATING_POOL 1 target = Some (max 60 (min 92 (target + 1)))" for target
  proof -
    from all [rule_format, OF h, of target] obtain lo hi where
      "temp_bounds HEATING_POOL = Some (lo, hi)"
      "temp_change HEATING_POOL 1 target = Some (max lo (min hi (target + sint (1 :: 8 word))))"
      by blast
    with b show ?thesis by simp
  qed
  from tc have t: "encoder_ticks HEATING_POOL (replicate 25 1) 80 = Some 92" by (elim conjE)
  show ?thesis using h c [of 80] c [of 92] t by simp
qed

subsection \<open>Debounced buttons\<close>

lemma sample_line_cases:
  obtains (change) "raw \<noteq> raw_level b"
      "fst (sample_line now raw b) = b\<lparr>raw_level := raw, stable_since := now\<rparr>"
      "\<not> snd (sample_line now raw b)"
    | (edge) "raw = raw_level b" "raw_level b \<noteq> debounced b"
      "stable_since b + DEBOUNCE_DELAY \<le> now"
      "fst (sample_line now raw b) = b\<lparr>debounced := raw\<rparr>"
      "snd (sample_line now raw b)"
    | (idle) "raw = raw_level b"
      "fst (sample_line now raw b) = b"
      "\<not> snd (sample_line now raw b)"
proof (cases "raw \<noteq> raw_level b")
  case True
  then have "sample_line now raw b = (b\<lparr>raw_level := raw, stable_since := now\<rparr>, False)"
    by (simp add: sample_line_def)
  with True show ?thesis by (intro change) simp_all
next
  case same: False
  show ?thesis
  proof (cases "raw \<noteq> debounced b \<and> stable_since b + DEBOUNCE_DELAY \<le> now")
    case True
    with same have "sample_line now raw b = (b\<lparr>debounced := raw\<rparr>, True)"
      by (simp add: sample_line_def)
    with same True show ?thesis by (intro edge) auto
  next
    case False
    with same have "sample_line now raw b = (b, False)"
      by (auto simp: sample_line_def)
    with same show ?thesis by (intro idle) simp_all
  qed
qed

lemma poll_times_rest:
  assumes "poll_times b ((now, raw) # rest)"
  shows "poll_times (fst (sample_line now raw b)) rest"
proof -
  from assms have s: "sorted_wrt (<) (map fst rest)" and later: "\<forall>t \<in> set (map fst rest). now < t"
    and since: "stable_since b \<le> now" "\<forall>t \<in> set (map fst rest). stable_since b \<le> t"
    by (auto simp: poll_times_def)
  have "stable_since (fst (sample_line now raw b)) \<le> now"
    using since(1) by (cases rule: sample_line_cases [of raw b now]) simp_all
  with later have "\<forall>t \<in> set (map fst rest). stable_since (fst (sample_line now raw b)) \<le> t"
    by fastforce
  with s show ?thesis by (simp add: poll_times_def)
qed

lemma edge_times_subset: "t \<in> set (edge_times b samples) \<Longrightarrow> t \<in> set (map fst samples)"
proof (induction samples arbitrary: b)
  case Nil
  then show ?case by simp
next
  case (Cons s rest)
  obtain now raw where s: "s = (now, raw)" by (cases s)
  from Cons.prems s have "t = now \<or> t \<in> set (edge_times (fst (sample_line now raw b)) rest)"
    by (auto split: if_splits)
  with Cons.IH s show ?case by auto
qed

lemma edge_stable:
  "poll_times b samples \<Longrightarrow> t \<in> set (edge_times b samples) \<Longrightarrow> stable_for b samples t"
proof (induction samples arbitrary: b)
  case Nil
  then show ?case by simp
next
  case (Cons s rest)
  obtain now raw where s: "s = (now, raw)" by (cases s)
  let ?b' = "fst (sample_line now raw b)"
  from Cons.prems(1) s have times: "poll_times b ((now, raw) # rest)" by simp
  then have later: "\<forall>x \<in> set rest. now < fst x" and since: "stable_since b \<le> now"
    by (auto simp: poll_times_def)
  from Cons.prems(2) s consider
      (here) "snd (sample_line now raw b)" "t = now"
    | (there) "t \<in> set (edge_times ?b' rest)"
    by (auto split: if_splits)
  then show ?case
  proof cases
    case here
    then have e: "raw = raw_level b" "stable_since b + DEBOUNCE_DELAY \<le> now"
      by (cases rule: sample_line_cases [of raw b now]; simp)+
    have "\<forall>(t', r') \<in> set ((now, raw) # rest). stable_since b \<le> t' \<and> t' \<le> now \<longrightarrow> r' = raw_level b"
      using later e(1) by fastforce
    with e here show ?thesis unfolding stable_for_def s by blast
  next
    case there
    from Cons.IH [OF poll_times_rest [OF times] there]
    obtain t0 r where w: "t0 + DEBOUNCE_DELAY \<le> t"
      and src: "(t0, r) \<in> set rest \<or> (t0 = stable_since ?b' \<and> r = raw_level ?b')"
      and st: "\<forall>(t', r') \<in> set rest. t0 \<le> t' \<and> t' \<le> t \<longrightarrow> r' = r"
      unfolding stable_for_def by blast
    from src show ?thesis
    proof
      assume in_rest: "(t0, r) \<in> set rest"
      with later have "now < t0" by fastforce
      with st have "\<forall>(t', r') \<in> set ((now, raw) # rest). t0 \<le> t' \<and> t' \<le> t \<longrightarrow> r' = r"
        by auto
      with w in_rest show ?thesis unfolding stable_for_def s by auto
    next
      assume from_state: "t0 = stable_since ?b' \<and> r = raw_level ?b'"
      show ?thesis
      proof (cases rule: sample_line_cases [of raw b now])
        case change
        from from_state change(2) have "t0 = now" "r = raw" by simp_all
        with st w show ?thesis unfolding stable_for_def s by auto
      next
        case edge
        from from_state edge(1,4) have "t0 = stable_since b" "r = raw_level b" "raw = r"
          by simp_all
        with st w show ?thesis unfolding stable_for_def s by auto
      next
        case idle
        from from_state idle(1,2) have "t0 = stable_since b" "r = raw_level b" "raw = r"
          by simp_all
        with st w show ?thesis unfolding stable_for_def s by auto
      qed
    qed
  qed
qed

lemma edges_after:
  "raw_level b \<noteq> debounced b \<longrightarrow> L < stable_since b \<Longrightarrow>
   sorted_wrt (<) (map fst samples) \<Longrightarrow> \<forall>t \<in> set (map fst samples). L < t \<Longrightarrow>
   sorted_wrt (\<lambda>a c. a + DEBOUNCE_DELAY < c) (L # edge_times b samples)"
proof (induction samples arbitrary: b L)
  case Nil
  then show ?case by simp
next
  case (Cons s rest)
  obtain now raw where s: "s = (now, raw)" by (cases s)
  let ?b' = "fst (sample_line now raw b)"
  from Cons.prems(2) s have sorted: "sorted_wrt (<) (map fst rest)"
    and later: "\<forall>t \<in> set (map fst rest). now < t" by auto
  from Cons.prems(3) s have L: "L < now" by simp
  with later have laterL: "\<forall>t \<in> set (map fst rest). L < t" by fastforce
  show ?case
  proof (cases rule: sample_line_cases [of raw b now])
    case change
    from change(2) L have "L < stable_since ?b'" by simp
    then have "raw_level ?b' \<noteq> debounced ?b' \<longrightarrow> L < stable_since ?b'" by blast
    from Cons.IH [OF this sorted laterL] change(3) s show ?thesis by simp
  next
    case edge
    from edge(2,3) Cons.prems(1) have gap: "L + DEBOUNCE_DELAY < now" by simp
    from edge(1,4) have "raw_level ?b' = debounced ?b'" by simp
    then have "raw_level ?b' \<noteq> debounced ?b' \<longrightarrow> now < stable_since ?b'" by blast
    from Cons.IH [OF this sorted later]
    have tail: "sorted_wrt (\<lambda>a c. a + DEBOUNCE_DELAY < c) (now # edge_times ?b' rest)" .
    then have "\<forall>t \<in> set (edge_times ?b' rest). L + DEBOUNCE_DELAY < t"
      using gap by fastforce
    with tail gap edge(5) s show ?thesis by simp
  next
    case idle
    from Cons.prems(1) have "raw_level ?b' \<noteq> debounced ?b' \<longrightarrow> L < stable_since ?b'"
      unfolding idle(2) .
    from Cons.IH [OF this sorted laterL] idle(3) s show ?thesis by simp
  qed
qed

lemma edges_separated:
  "sorted_wrt (<) (map fst samples) \<Longrightarrow>
   sorted_wrt (\<lambda>a c. a + DEBOUNCE_DELAY < c) (edge_times b samples)"
proof (induction samples arbitrary: b)
  case Nil
  then show ?case by simp
next
  case (Cons s rest)
  obtain now raw where s: "s = (now, raw)" by (cases s)
  from Cons.prems s have sorted: "sorted_wrt (<) (map fst rest)"
    and later: "\<forall>t \<in> set (map fst rest). now < t" by auto
  show ?case
  proof (cases "snd (sample_line now raw b)")
    case True
    then have "raw_level (fst (sample_line now raw b)) \<noteq> debounced (fst (sample_line now raw b))
        \<longrightarrow> now < stable_since (fst (sample_line now raw b))"
    proof (cases rule: sample_line_cases [of raw b now])
      case edge
      from edge(1,4) have "raw_level (fst (sample_line now raw b)) =
        debounced (fst (sample_line now raw b))" by simp
      then show ?thesis by blast
    qed simp_all
    from edges_after [OF this sorted later] True s show ?thesis by simp
  next
    case False
    with Cons.IH [OF sorted] s show ?thesis by simp
  qed
qed

lemma one_per_window:
  "sorted_wrt (\<lambda>a c. a + DEBOUNCE_DELAY < c) ts \<Longrightarrow>
   length (filter (\<lambda>t. w \<le> t \<and> t < w + DEBOUNCE_DELAY) ts) \<le> 1"
proof (induction ts)
  case Nil
  then show ?case by simp
next
  case (Cons a ts)
  then have far: "\<forall>t \<in> set ts. a + DEBOUNCE_DELAY < t"
    and rest: "length (filter (\<lambda>t. w \<le> t \<and> t < w + DEBOUNCE_DELAY) ts) \<le> 1"
    by simp_all
  show ?case
  proof (cases "w \<le> a \<and> a < w + DEBOUNCE_DELAY")
    case True
    with far have "\<forall>t \<in> set ts. \<not> (w \<le> t \<and> t < w + DEBOUNCE_DELAY)" by fastforce
    then have "filter (\<lambda>t. w \<le> t \<and> t < w + DEBOUNCE_DELAY) ts = []"
      by (simp add: filter_empty_conv)
    with True show ?thesis by simp
  next
    case False
    with rest show ?thesis by auto
  qed
qed

lemma edge_times_append:
  "edge_times b (xs @ ys) = edge_times b xs @ edge_times (final_line b xs) ys"
  by (induction xs arbitrary: b) auto

lemma final_line_raw: "raw_level (final_line b xs) = final_raw b xs"
proof (induction xs arbitrary: b)
  case Nil
  then show ?case by (simp add: final_raw_def)
next
  case (Cons s rest)
  obtain now raw where s: "s = (now, raw)" by (cases s)
  have r: "raw_level (fst (sample_line now raw b)) = raw"
  proof (cases rule: sample_line_cases [of raw b now])
    case change
    from change(2) show ?thesis by simp
  next
    case edge
    from edge(1,4) show ?thesis by simp
  next
    case idle
    from idle(1,2) show ?thesis by simp
  qed
  from Cons.IH [of "fst (sample_line now raw b)"] r s show ?case
    by (simp add: final_raw_def)
qed

lemma settled_constant:
  "raw_level b = debounced b \<Longrightarrow> \<forall>(t, r) \<in> set xs. r = raw_level b \<Longrightarrow>
   edge_times b xs = [] \<and> final_line b xs = b"
proof (induction xs)
  case Nil
  then show ?case by simp
next
  case (Cons s rest)
  obtain now raw where s: "s = (now, raw)" by (cases s)
  with Cons.prems(2) have "raw = raw_level b" by simp
  with Cons.prems(1) have "sample_line now raw b = (b, False)"
    by (simp add: sample_line_def)
  moreover from Cons.prems(2) have "\<forall>(t, r) \<in> set rest. r = raw_level b" by simp
  ultimately show ?case using Cons.IH [OF Cons.prems(1)] s by simp
qed

lemma constant_one_edge:
  "\<forall>(t, r) \<in> set xs. r = raw_level b \<Longrightarrow> length (edge_times b xs) \<le> 1"
proof (induction xs arbitrary: b)
  case Nil
  then show ?case by simp
next
  case (Cons s rest)
  obtain now raw where s: "s = (now, raw)" by (cases s)
  let ?b' = "fst (sample_line now raw b)"
  from Cons.prems s have same: "raw = raw_level b"
    and rest: "\<forall>(t, r) \<in> set rest. r = raw_level b" by auto
  show ?case
  proof (cases rule: sample_line_cases [of raw b now])
    case change
    with same show ?thesis by simp
  next
    case edge
    from edge(1,4) have settled: "raw_level ?b' = debounced ?b'" by simp
    from edge(4) rest have "\<forall>(t, r) \<in> set rest. r = raw_level ?b'" by simp
    from settled_constant [OF settled this] edge(5) s show ?thesis by simp
  next
    case idle
    from Cons.IH [of b] rest idle(2,3) s show ?thesis by simp
  qed
qed

lemma burst_no_edge:
  "raw_level b = debounced b \<or> w \<le> stable_since b \<Longrightarrow>
   \<forall>(t, r) \<in> set xs. w \<le> t \<and> t < w + DEBOUNCE_DELAY \<Longrightarrow>
   edge_times b xs = []"
proof (induction xs arbitrary: b)
  case Nil
  then show ?case by simp
next
  case (Cons s rest)
  obtain now raw where s: "s = (now, raw)" by (cases s)
  let ?b' = "fst (sample_line now raw b)"
  from Cons.prems(2) s have now: "w \<le> now" "now < w + DEBOUNCE_DELAY"
    and rest: "\<forall>(t, r) \<in> set rest. w \<le> t \<and> t < w + DEBOUNCE_DELAY" by auto
  show ?case
  proof (cases rule: sample_line_cases [of raw b now])
    case change
    from change(2) now have "w \<le> stable_since ?b'" by simp
    then have "raw_level ?b' = debounced ?b' \<or> w \<le> stable_since ?b'" by blast
    from Cons.IH [OF this rest] change(3) s show ?thesis by simp
  next
    case edge
    from edge(2) Cons.prems(1) have "w \<le> stable_since b" by simp
    with edge(3) now show ?thesis by simp
  next
    case idle
    from Cons.IH [OF Cons.prems(1) rest] idle(2,3) s show ?thesis by simp
  qed
qed

lemma burst_one_edge:
  assumes "burst_in_window b pre burst post w"
  shows "length (edge_times b (pre @ burst @ post)) \<le> 1"
proof -
  from assms have settled: "raw_level b = debounced b"
    and pre: "\<forall>(t, r) \<in> set pre. r = raw_level b"
    and burst: "\<forall>(t, r) \<in> set burst. w \<le> t \<and> t < w + DEBOUNCE_DELAY"
    and post: "\<forall>(t, r) \<in> set post. r = final_raw b (pre @ burst)"
    unfolding burst_in_window_def by blast+
  from settled_constant [OF settled pre]
  have p: "edge_times b pre = []" "final_line b pre = b" by simp_all
  from burst_no_edge [of b w burst] settled burst
  have q: "edge_times b burst = []" by simp
  have "final_raw b (pre @ burst) = raw_level (final_line b (pre @ burst))"
    by (simp add: final_line_raw)
  with post have "\<forall>(t, r) \<in> set post. r = raw_level (final_line b (pre @ burst))" by simp
  from constant_one_edge [OF this]
  have "length (edge_times (final_line b (pre @ burst)) post) \<le> 1" .
  moreover have "edge_times b (pre @ burst @ post) =
      edge_times (final_line b (pre @ burst)) post"
    using edge_times_append [of b "pre @ burst" post] edge_times_append [of b pre burst] p q
    by simp
  ultimately show ?thesis by simp
qed

lemma poll_length: "length (fst (poll now sample lines)) = NUM_BUTTONS"
  by (simp add: poll_def)

lemma poll_line:
  "button < NUM_BUTTONS \<Longrightarrow>
   fst (poll now sample lines) ! button = fst (sample_line now (raw_of sample button) (lines ! button)) \<and>
   snd (poll now sample lines) ! button = snd (sample_line now (raw_of sample button) (lines ! button))"
  by (simp add: poll_def)

lemma button_edges_line:
  "button < NUM_BUTTONS \<Longrightarrow>
   button_edges button lines samples = edge_times (lines ! button) (line_samples button samples)"
proof (induction samples arbitrary: lines)
  case Nil
  then show ?case by (simp add: line_samples_def)
next
  case (Cons s rest)
  obtain now sample where s: "s = (now, sample)" by (cases s)
  from Cons.IH [OF Cons.prems, of "fst (poll now sample lines)"] poll_line [OF Cons.prems, of now sample lines] s
  show ?case by (simp add: line_samples_def)
qed

text \<open>
  Claim C4. For every one of the eight button lines, polled at increasing times: the
  debounced state changes (an edge) only at a time \<open>t\<close> for which the raw level has
  been stable for the debounce window of 50 ms ending at \<open>t\<close>; no window of 50 ms
  holds more than one edge; and a burst of raw transitions confined to one window of
  50 ms, on a line at rest before it, produces at most one edge in all.
\<close>

theorem debounce_window:
  "\<forall>button<NUM_BUTTONS.
     length lines = NUM_BUTTONS \<and> poll_times (lines ! button) (line_samples button samples) \<longrightarrow>
       (\<forall>t \<in> set (button_edges button lines samples).
          stable_for (lines ! button) (line_samples button samples) t) \<and>
       (\<forall>w. length (filter (\<lambda>t. w \<le> t \<and> t < w + DEBOUNCE_DELAY)
          (button_edges button lines samples)) \<le> 1) \<and>
       (\<forall>pre burst post w.
          line_samples button samples = pre @ burst @ post \<and>
          burst_in_window (lines ! button) pre burst post w \<longrightarrow>
          length (button_edges button lines samples) \<le> 1)"
proof (intro allI impI)
  fix button
  assume b: "button < NUM_BUTTONS"
    and "length lines = NUM_BUTTONS \<and> poll_times (lines ! button) (line_samples button samples)"
  then have times: "poll_times (lines ! button) (line_samples button samples)" by simp
  note proj = button_edges_line [OF b, of lines samples]
  have stable: "\<forall>t \<in> set (button_edges button lines samples).
      stable_for (lines ! button) (line_samples button samples) t"
    unfolding proj using edge_stable [OF times] by blast
  from times have "sorted_wrt (<) (map fst (line_samples button samples))"
    by (simp add: poll_times_def)
  from edges_separated [OF this, of "lines ! button"]
  have window: "\<forall>w. length (filter (\<lambda>t. w \<le> t \<and> t < w + DEBOUNCE_DELAY)
      (button_edges button lines samples)) \<le> 1"
    unfolding proj using one_per_window by blast
  have burst: "\<forall>pre burst post w.
      line_samples button samples = pre @ burst @ post \<and>
      burst_in_window (lines ! button) pre burst post w \<longrightarrow>
      length (button_edges button lines samples) \<le> 1"
    unfolding proj using burst_one_edge by metis
  from stable window burst
  show "(\<forall>t \<in> set (button_edges button lines samples).
          stable_for (lines ! button) (line_samples button samples) t) \<and>
       (\<forall>w. length (filter (\<lambda>t. w \<le> t \<and> t < w + DEBOUNCE_DELAY)
          (button_edges button lines samples)) \<le> 1) \<and>
       (\<forall>pre burst post w.
          line_samples button samples = pre @ burst @ post \<and>
          burst_in_window (lines ! button) pre burst post w \<longrightarrow>
          length (button_edges button lines samples) \<le> 1)"
    by blast
qed

theorem debounce_window_witness:
  "(0 :: nat) < NUM_BUTTONS \<and> length idle_lines = NUM_BUTTONS \<and>
   poll_times (idle_lines ! 0) (line_samples 0 bouncing_press) \<and>
   button_edges 0 idle_lines bouncing_press = [80] \<and>
   stable_for (idle_lines ! 0) (line_samples 0 bouncing_press) 80 \<and>
   length (filter (\<lambda>t. 40 \<le> t \<and> t < 40 + DEBOUNCE_DELAY)
     (button_edges 0 idle_lines bouncing_press)) \<le> 1 \<and>
   line_samples 0 bouncing_press =
     [(0, False)] @ [(10, True), (20, False), (30, True)] @
     [(40, True), (50, True), (60, True), (70, True), (80, True), (90, True)] \<and>
   burst_in_window (idle_lines ! 0) [(0, False)] [(10, True), (20, False), (30, True)]
     [(40, True), (50, True), (60, True), (70, True), (80, True), (90, True)] 10 \<and>
   length (button_edges 0 idle_lines bouncing_press) \<le> 1"
proof -
  have b: "(0 :: nat) < NUM_BUTTONS" by (simp add: NUM_BUTTONS_def)
  have l: "length idle_lines = NUM_BUTTONS" by (simp add: idle_lines_def)
  have line0: "idle_lines ! 0 = \<lparr>debounced = False, raw_level = False, stable_since = 0\<rparr>"
    by (simp add: idle_lines_def NUM_BUTTONS_def)
  have ls: "line_samples 0 bouncing_press =
     [(0, False)] @ [(10, True), (20, False), (30, True)] @
     [(40, True), (50, True), (60, True), (70, True), (80, True), (90, True)]"
    by (simp add: line_samples_def bouncing_press_def raw_of_def button_masks_def
        HEAT_SPA_BUTTON_MASK_def)
  have p: "poll_times (idle_lines ! 0) (line_samples 0 bouncing_press)"
    unfolding ls line0 by (simp add: poll_times_def)
  have e: "button_edges 0 idle_lines bouncing_press = [80]"
    unfolding button_edges_line [OF b] ls line0
    by (simp add: sample_line_def DEBOUNCE_DELAY_def)
  have bw: "burst_in_window (idle_lines ! 0) [(0, False)] [(10, True), (20, False), (30, True)]
     [(40, True), (50, True), (60, True), (70, True), (80, True), (90, True)] 10"
    unfolding line0 by (simp add: burst_in_window_def final_raw_def DEBOUNCE_DELAY_def)
  from debounce_window [of idle_lines bouncing_press] b l p
  have st: "\<forall>t \<in> set (button_edges 0 idle_lines bouncing_press).
          stable_for (idle_lines ! 0) (line_samples 0 bouncing_press) t"
    and wn: "\<forall>w. length (filter (\<lambda>t. w \<le> t \<and> t < w + DEBOUNCE_DELAY)
          (button_edges 0 idle_lines bouncing_press)) \<le> 1"
    and bu: "\<forall>pre burst post w.
          line_samples 0 bouncing_press = pre @ burst @ post \<and>
          burst_in_window (idle_lines ! 0) pre burst post w \<longrightarrow>
          length (button_edges 0 idle_lines bouncing_press) \<le> 1"
    by blast+
  from st e have s80: "stable_for (idle_lines ! 0) (line_samples 0 bouncing_press) 80" by simp
  from wn have w40: "length (filter (\<lambda>t. 40 \<le> t \<and> t < 40 + DEBOUNCE_DELAY)
     (button_edges 0 idle_lines bouncing_press)) \<le> 1" by blast
  from bu ls bw have one: "length (button_edges 0 idle_lines bouncing_press) \<le> 1" by blast
  from b l p e s80 w40 ls bw one show ?thesis by blast
qed

end
